theory Spec2Isabelle
  imports Main "HOL-Library.Multiset"
begin

section \<open>Data model of partition.c\<close>

text \<open>
  A \<open>Datum\<close> is an opaque machine word. Only two things are ever done with one here: it is
  handed to the partition key's comparison support function, and it is compared bit for bit
  by \<open>datumIsEqual\<close>. It is modelled as an integer; \<open>datumIsEqual\<close> is equality and
  \<open>datumCopy\<close> is the identity.
\<close>

type_synonym Datum = int

type_synonym Oid = nat

text \<open>The enum \<open>RangeDatumContent\<close>; the C enumerators are numbered 0, 1, 2 in this order.\<close>

datatype RangeDatumContent =
  RANGE_DATUM_FINITE | RANGE_DATUM_NEG_INF | RANGE_DATUM_POS_INF

fun content_num :: "RangeDatumContent \<Rightarrow> int" where
  "content_num RANGE_DATUM_FINITE = 0"
| "content_num RANGE_DATUM_NEG_INF = 1"
| "content_num RANGE_DATUM_POS_INF = 2"

text \<open>
  The strategy tag is a \<open>char\<close> in the source; the two macros are the characters the
  parser uses. Any other character reaches the \<open>default:\<close> branches.
\<close>

definition PARTITION_STRATEGY_LIST :: char where
  "PARTITION_STRATEGY_LIST = CHR ''l''"

definition PARTITION_STRATEGY_RANGE :: char where
  "PARTITION_STRATEGY_RANGE = CHR ''r''"

text \<open>
  A row image (the tuple held by a \<open>TupleTableSlot\<close>): one entry per attribute, \<open>None\<close> for
  SQL \<open>NULL\<close>.
\<close>

type_synonym Row = "Datum option list"

text \<open>
  The part of \<open>PartitionKeyData\<close> that partition.c reads: the strategy, the number of key
  columns, per column the comparison support function (with its collation already
  applied): \<open>partsupfunc key i a b\<close> is
  \<open>DatumGetInt32(FunctionCall2Coll(&key->partsupfunc[i], key->partcollation[i], a, b))\<close>;
  the attribute numbers of the key columns (0 for an expression column) and the key
  expressions in order, each as the function the executor evaluates on the scanned row.
\<close>

record PartitionKey =
  strategy :: char
  partnatts :: nat
  partsupfunc :: "nat \<Rightarrow> Datum \<Rightarrow> Datum \<Rightarrow> int"
  partattrs :: "int list"
  partexprs :: "(Row \<Rightarrow> Datum option) list"

text \<open>\<open>PartitionListValue\<close>: one value coming from the \<open>index\<close>'th list partition.\<close>

record PartitionListValue =
  lv_index :: int
  lv_value :: Datum

text \<open>\<open>PartitionRangeBound\<close>: one bound of a range partition.\<close>

record PartitionRangeBound =
  rb_index :: int
  rb_datums :: "Datum list"
  rb_content :: "RangeDatumContent list"
  rb_lower :: bool

text \<open>
  \<open>PartitionBoundInfoData\<close>. \<open>bi_content\<close> is \<open>None\<close> for the C \<open>NULL\<close> pointer of a list
  partitioned table.
\<close>

record PartitionBoundInfoData =
  bi_strategy :: char
  ndatums :: int
  bi_datums :: "Datum list list"
  bi_content :: "RangeDatumContent list list option"
  bi_indexes :: "int list"
  null_index :: int

definition partition_bound_accepts_nulls :: "PartitionBoundInfoData \<Rightarrow> bool" where
  "partition_bound_accepts_nulls bi \<longleftrightarrow> null_index bi \<noteq> -1"

text \<open>
  Every \<open>elog(ERROR, ...)\<close> and \<open>ereport(ERROR, ...)\<close> of the modelled functions. The
  overlap report names the colliding partition, \<open>partdesc->oids[with]\<close>.
  \<open>Undefined_behaviour\<close> stands for what C leaves undefined and the model makes explicit: a
  write past the end of an array, a \<open>NULL\<close> dereference, or a \<open>void *\<close> probe read at the
  wrong type.
\<close>

datatype pg_error =
    Invalid_strategy_in_partition_bound_spec
  | Found_null_more_than_once
  | Unexpected_partition_strategy
  | Invalid_range_bound_datum
  | Empty_range
  | Would_overlap_oid Oid
  | Wrong_number_of_partition_key_expressions
  | Undefined_behaviour

section \<open>The comparator\<close>

text \<open>
  The loop of \<open>partition_rbound_cmp\<close> from column \<open>i\<close> on. \<open>Inl v\<close> is a \<open>return v\<close> from
  inside the loop; \<open>Inr cmpval\<close> is the value of \<open>cmpval\<close> when the loop is left by \<open>break\<close>
  or because \<open>i\<close> reached \<open>partnatts\<close>.
\<close>

function rbound_cmp_loop ::
  "PartitionKey \<Rightarrow> Datum list \<Rightarrow> RangeDatumContent list \<Rightarrow> Datum list \<Rightarrow>
     RangeDatumContent list \<Rightarrow> nat \<Rightarrow> int \<Rightarrow> int + int" where
  "rbound_cmp_loop key datums1 content1 datums2 content2 i cmpval =
     (if i < partnatts key then
        if content1 ! i \<noteq> RANGE_DATUM_FINITE \<and> content2 ! i \<noteq> RANGE_DATUM_FINITE then
          Inl (if content1 ! i = content2 ! i then 0
               else if content_num (content1 ! i) < content_num (content2 ! i) then -1 else 1)
        else if content1 ! i \<noteq> RANGE_DATUM_FINITE then
          Inl (if content1 ! i = RANGE_DATUM_NEG_INF then -1 else 1)
        else if content2 ! i \<noteq> RANGE_DATUM_FINITE then
          Inl (if content2 ! i = RANGE_DATUM_NEG_INF then 1 else -1)
        else
          (let cmpval' = partsupfunc key i (datums1 ! i) (datums2 ! i) in
           if cmpval' \<noteq> 0 then Inr cmpval'
           else rbound_cmp_loop key datums1 content1 datums2 content2 (Suc i) cmpval')
      else Inr cmpval)"
  by pat_completeness auto
termination
  by (relation "measure (\<lambda>(key, d1, c1, d2, c2, i, cmpval). partnatts key - i)") auto

declare rbound_cmp_loop.simps [simp del]

definition partition_rbound_cmp ::
  "PartitionKey \<Rightarrow> Datum list \<Rightarrow> RangeDatumContent list \<Rightarrow> bool \<Rightarrow> PartitionRangeBound \<Rightarrow> int"
  where
  "partition_rbound_cmp key datums1 content1 lower1 b2 =
     (case rbound_cmp_loop key datums1 content1 (rb_datums b2) (rb_content b2) 0 0 of
        Inl v \<Rightarrow> v
      | Inr cmpval \<Rightarrow>
          if cmpval = 0 \<and> lower1 \<noteq> rb_lower b2 then (if lower1 then 1 else -1) else cmpval)"

definition qsort_partition_rbound_cmp ::
  "PartitionKey \<Rightarrow> PartitionRangeBound \<Rightarrow> PartitionRangeBound \<Rightarrow> int" where
  "qsort_partition_rbound_cmp key b1 b2 =
     partition_rbound_cmp key (rb_datums b1) (rb_content b1) (rb_lower b1) b2"

definition qsort_partition_list_value_cmp ::
  "PartitionKey \<Rightarrow> PartitionListValue \<Rightarrow> PartitionListValue \<Rightarrow> int" where
  "qsort_partition_list_value_cmp key a b = partsupfunc key 0 (lv_value a) (lv_value b)"

text \<open>The loop of \<open>partition_rbound_datum_cmp\<close>, with the same convention.\<close>

function rbound_datum_cmp_loop ::
  "PartitionKey \<Rightarrow> Datum list \<Rightarrow> RangeDatumContent list \<Rightarrow> Datum list \<Rightarrow> nat \<Rightarrow> int \<Rightarrow> int + int"
  where
  "rbound_datum_cmp_loop key rb_d rb_c tuple_datums i cmpval =
     (if i < partnatts key then
        if rb_c ! i \<noteq> RANGE_DATUM_FINITE then
          Inl (if rb_c ! i = RANGE_DATUM_NEG_INF then -1 else 1)
        else
          (let cmpval' = partsupfunc key i (rb_d ! i) (tuple_datums ! i) in
           if cmpval' \<noteq> 0 then Inr cmpval'
           else rbound_datum_cmp_loop key rb_d rb_c tuple_datums (Suc i) cmpval')
      else Inr cmpval)"
  by pat_completeness auto
termination
  by (relation "measure (\<lambda>(key, d, c, t, i, cmpval). partnatts key - i)") auto

declare rbound_datum_cmp_loop.simps [simp del]

definition partition_rbound_datum_cmp ::
  "PartitionKey \<Rightarrow> Datum list \<Rightarrow> RangeDatumContent list \<Rightarrow> Datum list \<Rightarrow> int" where
  "partition_rbound_datum_cmp key rb_d rb_c tuple_datums =
     (case rbound_datum_cmp_loop key rb_d rb_c tuple_datums 0 (-1) of
        Inl v \<Rightarrow> v | Inr cmpval \<Rightarrow> cmpval)"

section \<open>The bound index\<close>

text \<open>
  The \<open>void *probe\<close> of \<open>partition_bound_cmp\<close> points either to one or more Datums (a list
  value, or the key values of a row) or to a \<open>PartitionRangeBound\<close>.
\<close>

datatype Probe = Probe_Datums "Datum list" | Probe_Bound PartitionRangeBound

definition partition_bound_cmp ::
  "PartitionKey \<Rightarrow> PartitionBoundInfoData \<Rightarrow> int \<Rightarrow> Probe \<Rightarrow> bool \<Rightarrow> pg_error + int" where
  "partition_bound_cmp key boundinfo offset probe probe_is_bound =
     (let bound_datums = bi_datums boundinfo ! nat offset in
      if strategy key = PARTITION_STRATEGY_LIST then
        (case probe of
           Probe_Datums ds \<Rightarrow> Inr (partsupfunc key 0 (bound_datums ! 0) (ds ! 0))
         | Probe_Bound b \<Rightarrow> Inl Undefined_behaviour)
      else if strategy key = PARTITION_STRATEGY_RANGE then
        (case bi_content boundinfo of
           None \<Rightarrow> Inl Undefined_behaviour
         | Some cont \<Rightarrow>
             (let content = cont ! nat offset in
              if probe_is_bound then
                (let lower = bi_indexes boundinfo ! nat offset < 0 in
                 case probe of
                   Probe_Bound b \<Rightarrow> Inr (partition_rbound_cmp key bound_datums content lower b)
                 | Probe_Datums ds \<Rightarrow> Inl Undefined_behaviour)
              else
                (case probe of
                   Probe_Datums ds \<Rightarrow> Inr (partition_rbound_datum_cmp key bound_datums content ds)
                 | Probe_Bound b \<Rightarrow> Inl Undefined_behaviour)))
      else Inl Unexpected_partition_strategy)"

text \<open>
  The \<open>while (lo < hi)\<close> loop of \<open>partition_bound_bsearch\<close>. \<open>is_equal\<close> is the current
  content of \<open>*is_equal\<close>, which the loop writes only when it moves \<open>lo\<close>. The loop is entered
  with \<open>lo = -1\<close>, so \<open>lo + hi + 1\<close> is never negative where it is divided and C's
  truncating \<open>/\<close> is \<open>div\<close>.
\<close>

function partition_bound_bsearch_loop ::
  "PartitionKey \<Rightarrow> PartitionBoundInfoData \<Rightarrow> Probe \<Rightarrow> bool \<Rightarrow> int \<Rightarrow> int \<Rightarrow> bool \<Rightarrow>
     pg_error + int \<times> bool" where
  "partition_bound_bsearch_loop key boundinfo probe probe_is_bound lo hi is_equal =
     (if lo < hi then
        (let mid = (lo + hi + 1) div 2 in
         case partition_bound_cmp key boundinfo mid probe probe_is_bound of
           Inl e \<Rightarrow> Inl e
         | Inr cmpval \<Rightarrow>
             if cmpval \<le> 0 then
               (if cmpval = 0 then Inr (mid, True)
                else partition_bound_bsearch_loop key boundinfo probe probe_is_bound mid hi False)
             else partition_bound_bsearch_loop key boundinfo probe probe_is_bound lo (mid - 1)
                    is_equal)
      else Inr (lo, is_equal))"
  by pat_completeness auto
termination
  by (relation "measure (\<lambda>(key, bi, probe, pib, lo, hi, eq). nat (hi - lo))") auto

declare partition_bound_bsearch_loop.simps [simp del]

text \<open>
  \<open>partition_bound_bsearch\<close> returns \<open>lo\<close>; the second component is \<open>*is_equal\<close> on return,
  \<open>is_equal\<close> being what the caller's variable held before the call.
\<close>

definition partition_bound_bsearch ::
  "PartitionKey \<Rightarrow> PartitionBoundInfoData \<Rightarrow> Probe \<Rightarrow> bool \<Rightarrow> bool \<Rightarrow> pg_error + int \<times> bool"
  where
  "partition_bound_bsearch key boundinfo probe probe_is_bound is_equal =
     partition_bound_bsearch_loop key boundinfo probe probe_is_bound (-1)
       (ndatums boundinfo - 1) is_equal"

section \<open>Bound declarations and \<open>make_one_range_bound\<close>\<close>

text \<open>The parse nodes \<open>Const\<close>, \<open>PartitionRangeDatum\<close> and \<open>PartitionBoundSpec\<close>.\<close>

record Const =
  constvalue :: Datum
  constisnull :: bool

record PartitionRangeDatum =
  infinite :: bool
  rd_value :: Const

record PartitionBoundSpec =
  spec_strategy :: char
  listdatums :: "Const list"
  lowerdatums :: "PartitionRangeDatum list"
  upperdatums :: "PartitionRangeDatum list"

text \<open>
  The \<open>foreach\<close> of \<open>make_one_range_bound\<close>. The two arrays were allocated with \<open>palloc0\<close>
  for \<open>partnatts\<close> entries; a declaration with more entries would write past them.
\<close>

fun make_one_range_bound_loop ::
  "PartitionRangeDatum list \<Rightarrow> bool \<Rightarrow> nat \<Rightarrow> PartitionRangeBound \<Rightarrow>
     pg_error + PartitionRangeBound" where
  "make_one_range_bound_loop [] lower i bound = Inr bound"
| "make_one_range_bound_loop (datum # rest) lower i bound =
     (if length (rb_content bound) \<le> i then Inl Undefined_behaviour
      else
        (let c = (if \<not> infinite datum then RANGE_DATUM_FINITE
                  else if lower then RANGE_DATUM_NEG_INF else RANGE_DATUM_POS_INF);
             bound' = bound\<lparr>rb_content := (rb_content bound)[i := c]\<rparr>
         in if c = RANGE_DATUM_FINITE then
              (if constisnull (rd_value datum) then Inl Invalid_range_bound_datum
               else make_one_range_bound_loop rest lower (Suc i)
                      (bound'\<lparr>rb_datums := (rb_datums bound')[i := constvalue (rd_value datum)]\<rparr>))
            else make_one_range_bound_loop rest lower (Suc i) bound'))"

definition make_one_range_bound ::
  "PartitionKey \<Rightarrow> int \<Rightarrow> PartitionRangeDatum list \<Rightarrow> bool \<Rightarrow> pg_error + PartitionRangeBound"
  where
  "make_one_range_bound key index datums lower =
     make_one_range_bound_loop datums lower 0
       \<lparr>rb_index = index,
        rb_datums = replicate (partnatts key) 0,
        rb_content = replicate (partnatts key) RANGE_DATUM_FINITE,
        rb_lower = lower\<rparr>"

section \<open>The overlap checker\<close>

text \<open>\<open>PartitionDescData\<close>; \<open>boundinfo\<close> is \<open>None\<close> for the \<open>NULL\<close> of a table without partitions.\<close>

record PartitionDescData =
  nparts :: int
  oids :: "Oid list"
  boundinfo :: "PartitionBoundInfoData option"

text \<open>
  The \<open>foreach\<close> over \<open>spec->listdatums\<close> of \<open>check_new_partition_bound\<close>; the result is
  \<open>(overlap, with)\<close>. The local \<open>equal\<close> is not initialised in the source and is read only
  when the search has written it (\<open>offset >= 0\<close>).
\<close>

fun check_list_datums ::
  "PartitionKey \<Rightarrow> PartitionBoundInfoData \<Rightarrow> Const list \<Rightarrow> pg_error + bool \<times> int" where
  "check_list_datums key bi [] = Inr (False, -1)"
| "check_list_datums key bi (val # rest) =
     (if \<not> constisnull val then
        (case partition_bound_bsearch key bi (Probe_Datums [constvalue val]) True False of
           Inl e \<Rightarrow> Inl e
         | Inr (offset, equal) \<Rightarrow>
             if offset \<ge> 0 \<and> equal then Inr (True, bi_indexes bi ! nat offset)
             else check_list_datums key bi rest)
      else if partition_bound_accepts_nulls bi then Inr (True, null_index bi)
      else check_list_datums key bi rest)"

text \<open>The range case after the empty-range check; the result is \<open>(overlap, with)\<close>.\<close>

definition check_range_overlap ::
  "PartitionKey \<Rightarrow> PartitionBoundInfoData \<Rightarrow> PartitionRangeBound \<Rightarrow> PartitionRangeBound \<Rightarrow>
     pg_error + bool \<times> int" where
  "check_range_overlap key bi lower upper =
     (case partition_bound_bsearch key bi (Probe_Bound lower) True False of
        Inl e \<Rightarrow> Inl e
      | Inr (off1, equal) \<Rightarrow>
          if \<not> equal \<and> bi_indexes bi ! nat (off1 + 1) < 0 then
            (case partition_bound_bsearch key bi (Probe_Bound upper) True equal of
               Inl e \<Rightarrow> Inl e
             | Inr (off2, equal') \<Rightarrow>
                 if equal' \<or> off1 \<noteq> off2 then
                   (if off2 < 0 then Inl Undefined_behaviour
                    else if bi_indexes bi ! nat off2 < 0
                    then Inr (True, bi_indexes bi ! nat (off2 + 1))
                    else Inr (True, bi_indexes bi ! nat off2))
                 else Inr (False, -1))
          else Inr (True, bi_indexes bi ! nat (off1 + 1)))"

text \<open>
  \<open>check_new_partition_bound\<close>. It returns nothing; every outcome but a plain return is an
  error report. \<open>boundinfo\<close> is dereferenced only when \<open>nparts > 0\<close>.
\<close>

definition check_new_partition_bound ::
  "PartitionKey \<Rightarrow> PartitionDescData \<Rightarrow> PartitionBoundSpec \<Rightarrow> pg_error + unit" where
  "check_new_partition_bound key partdesc spec =
     (case
        (if strategy key = PARTITION_STRATEGY_LIST then
           (if nparts partdesc > 0 then
              (case boundinfo partdesc of
                 None \<Rightarrow> Inl Undefined_behaviour
               | Some bi \<Rightarrow> check_list_datums key bi (listdatums spec))
            else Inr (False, -1))
         else if strategy key = PARTITION_STRATEGY_RANGE then
           (case make_one_range_bound key (-1) (lowerdatums spec) True of
              Inl e \<Rightarrow> Inl e
            | Inr lower \<Rightarrow>
                (case make_one_range_bound key (-1) (upperdatums spec) False of
                   Inl e \<Rightarrow> Inl e
                 | Inr upper \<Rightarrow>
                     if partition_rbound_cmp key (rb_datums lower) (rb_content lower) True upper
                          \<ge> 0
                     then Inl Empty_range
                     else if nparts partdesc > 0 then
                       (case boundinfo partdesc of
                          None \<Rightarrow> Inl Undefined_behaviour
                        | Some bi \<Rightarrow> check_range_overlap key bi lower upper)
                     else Inr (False, -1)))
         else Inl Unexpected_partition_strategy)
      of
        Inl e \<Rightarrow> Inl e
      | Inr (overlap, with) \<Rightarrow>
          if overlap then
            (if with < 0 \<or> int (length (oids partdesc)) \<le> with then Inl Undefined_behaviour
             else Inl (Would_overlap_oid (oids partdesc ! nat with)))
          else Inr ())"

section \<open>The canonicalizer: \<open>RelationBuildPartitionDesc\<close>\<close>

text \<open>
  Modelled from the spec: \<open>qsort_arg\<close>, the sort routine \<open>RelationBuildPartitionDesc\<close> calls,
  is not part of partition.c. The spec says only that the values and the markers are
  sorted by the comparator. It is modelled as an insertion sort that takes the elements
  in input order and puts each one behind the elements that do not compare greater.
  The proofs below use two facts about it only: the result is a permutation of the input,
  and it is ascending when the comparator is a total preorder.
\<close>

fun qsort_insert :: "('a \<Rightarrow> 'a \<Rightarrow> int) \<Rightarrow> 'a \<Rightarrow> 'a list \<Rightarrow> 'a list" where
  "qsort_insert cmp x [] = [x]"
| "qsort_insert cmp x (y # ys) =
     (if cmp y x > 0 then x # y # ys else y # qsort_insert cmp x ys)"

fun qsort_loop :: "('a \<Rightarrow> 'a \<Rightarrow> int) \<Rightarrow> 'a list \<Rightarrow> 'a list \<Rightarrow> 'a list" where
  "qsort_loop cmp acc [] = acc"
| "qsort_loop cmp acc (x # xs) = qsort_loop cmp (qsort_insert cmp x acc) xs"

definition qsort_arg :: "('a \<Rightarrow> 'a \<Rightarrow> int) \<Rightarrow> 'a list \<Rightarrow> 'a list" where
  "qsort_arg cmp xs = qsort_loop cmp [] xs"

subsection \<open>List strategy: collecting the values\<close>

text \<open>
  The inner \<open>foreach(c, spec->listdatums)\<close> for partition \<open>i\<close>; the state is \<open>null_index\<close> and
  the list \<open>non_null_values\<close>.
\<close>

fun list_datums_loop ::
  "Const list \<Rightarrow> int \<Rightarrow> int \<Rightarrow> PartitionListValue list \<Rightarrow>
     pg_error + int \<times> PartitionListValue list" where
  "list_datums_loop [] i null_idx non_null_values = Inr (null_idx, non_null_values)"
| "list_datums_loop (val # rest) i null_idx non_null_values =
     (if \<not> constisnull val then
        list_datums_loop rest i null_idx
          (non_null_values @ [\<lparr>lv_index = i, lv_value = constvalue val\<rparr>])
      else if null_idx \<noteq> -1 then Inl Found_null_more_than_once
      else list_datums_loop rest i i non_null_values)"

text \<open>The outer \<open>foreach(cell, boundspecs)\<close>, \<open>i\<close> counting the partitions.\<close>

fun list_specs_loop ::
  "PartitionBoundSpec list \<Rightarrow> int \<Rightarrow> int \<Rightarrow> PartitionListValue list \<Rightarrow>
     pg_error + int \<times> PartitionListValue list" where
  "list_specs_loop [] i null_idx non_null_values = Inr (null_idx, non_null_values)"
| "list_specs_loop (spec # rest) i null_idx non_null_values =
     (if spec_strategy spec \<noteq> PARTITION_STRATEGY_LIST
      then Inl Invalid_strategy_in_partition_bound_spec
      else
        (case list_datums_loop (listdatums spec) i null_idx non_null_values of
           Inl e \<Rightarrow> Inl e
         | Inr (null_idx', non_null_values') \<Rightarrow>
             list_specs_loop rest (i + 1) null_idx' non_null_values'))"

subsection \<open>Range strategy: collecting, sorting and merging the markers\<close>

fun range_specs_loop ::
  "PartitionKey \<Rightarrow> PartitionBoundSpec list \<Rightarrow> int \<Rightarrow> PartitionRangeBound list \<Rightarrow>
     pg_error + PartitionRangeBound list" where
  "range_specs_loop key [] i all_bounds = Inr all_bounds"
| "range_specs_loop key (spec # rest) i all_bounds =
     (if spec_strategy spec \<noteq> PARTITION_STRATEGY_RANGE
      then Inl Invalid_strategy_in_partition_bound_spec
      else
        (case make_one_range_bound key i (lowerdatums spec) True of
           Inl e \<Rightarrow> Inl e
         | Inr lower \<Rightarrow>
             (case make_one_range_bound key i (upperdatums spec) False of
                Inl e \<Rightarrow> Inl e
              | Inr upper \<Rightarrow> range_specs_loop key rest (i + 1) (all_bounds @ [lower, upper]))))"

text \<open>
  The inner loop ``is current bound distinct from the previous?''; the result is
  \<open>is_distinct\<close>. Only the column values are looked at, never the \<open>lower\<close> flags.
\<close>

function is_distinct_loop ::
  "PartitionKey \<Rightarrow> PartitionRangeBound \<Rightarrow> PartitionRangeBound option \<Rightarrow> nat \<Rightarrow> bool" where
  "is_distinct_loop key cur prev j =
     (if j < partnatts key then
        (case prev of
           None \<Rightarrow> True
         | Some p \<Rightarrow>
             if rb_content cur ! j \<noteq> RANGE_DATUM_FINITE \<or> rb_content p ! j \<noteq> RANGE_DATUM_FINITE
             then True
             else if partsupfunc key j (rb_datums cur ! j) (rb_datums p ! j) \<noteq> 0 then True
             else is_distinct_loop key cur prev (Suc j))
      else False)"
  by pat_completeness auto
termination
  by (relation "measure (\<lambda>(key, cur, prev, j). partnatts key - j)") auto

declare is_distinct_loop.simps [simp del]

text \<open>The array \<open>distinct_indexes\<close> for the sorted markers from \<open>prev\<close> on.\<close>

fun distinct_indexes_loop ::
  "PartitionKey \<Rightarrow> PartitionRangeBound list \<Rightarrow> PartitionRangeBound option \<Rightarrow> bool list" where
  "distinct_indexes_loop key [] prev = []"
| "distinct_indexes_loop key (cur # rest) prev =
     is_distinct_loop key cur prev 0 # distinct_indexes_loop key rest (Some cur)"

text \<open>The array \<open>rbounds\<close>: the markers whose \<open>distinct_indexes\<close> entry is set.\<close>

definition distinct_rbounds ::
  "PartitionKey \<Rightarrow> PartitionRangeBound list \<Rightarrow> PartitionRangeBound list" where
  "distinct_rbounds key all_bounds =
     map fst (filter snd (zip all_bounds (distinct_indexes_loop key all_bounds None)))"

subsection \<open>Building the descriptor\<close>

text \<open>
  The list loop over \<open>all_values\<close>; the state is \<open>mapping\<close>, \<open>next_index\<close> and the arrays
  \<open>boundinfo->datums\<close>, \<open>boundinfo->indexes\<close> filled so far.
\<close>

fun list_build_loop ::
  "PartitionListValue list \<Rightarrow> int list \<Rightarrow> int \<Rightarrow> Datum list list \<Rightarrow> int list \<Rightarrow>
     int list \<times> int \<times> Datum list list \<times> int list" where
  "list_build_loop [] mapping next_index datums indexes = (mapping, next_index, datums, indexes)"
| "list_build_loop (v # rest) mapping next_index datums indexes =
     (let unmapped = (mapping ! nat (lv_index v) = -1);
          mapping' = (if unmapped then mapping[nat (lv_index v) := next_index] else mapping);
          next_index' = (if unmapped then next_index + 1 else next_index)
      in list_build_loop rest mapping' next_index' (datums @ [[lv_value v]])
           (indexes @ [mapping' ! nat (lv_index v)]))"

text \<open>
  The range loop over \<open>rbounds\<close>. The datum slot of an infinite column is left
  uninitialised by the source and is never read (every reader looks at \<open>content\<close> first);
  the model stores 0 there.
\<close>

fun range_build_loop ::
  "PartitionKey \<Rightarrow> PartitionRangeBound list \<Rightarrow> int list \<Rightarrow> int \<Rightarrow> Datum list list \<Rightarrow>
     RangeDatumContent list list \<Rightarrow> int list \<Rightarrow>
     int list \<times> int \<times> Datum list list \<times> RangeDatumContent list list \<times> int list" where
  "range_build_loop key [] mapping next_index datums content indexes =
     (mapping, next_index, datums, content, indexes)"
| "range_build_loop key (rb # rest) mapping next_index datums content indexes =
     (let ds = map (\<lambda>j. if rb_content rb ! j = RANGE_DATUM_FINITE then rb_datums rb ! j else 0)
                 [0..<partnatts key];
          cs = map (\<lambda>j. rb_content rb ! j) [0..<partnatts key]
      in if rb_lower rb then
           range_build_loop key rest mapping next_index (datums @ [ds]) (content @ [cs])
             (indexes @ [-1])
         else
           (let orig_index = rb_index rb;
                unmapped = (mapping ! nat orig_index = -1);
                mapping' = (if unmapped then mapping[nat orig_index := next_index] else mapping);
                next_index' = (if unmapped then next_index + 1 else next_index)
            in range_build_loop key rest mapping' next_index' (datums @ [ds]) (content @ [cs])
                 (indexes @ [mapping' ! nat orig_index])))"

text \<open>
  The final loop \<open>result->oids[mapping[i]] = oids[i]\<close>. \<open>result->oids\<close> has \<open>nparts\<close>
  entries; a partition left without a mapping would be written at index -1.
\<close>

fun assign_oids_loop :: "int list \<Rightarrow> Oid list \<Rightarrow> nat \<Rightarrow> Oid list \<Rightarrow> pg_error + Oid list" where
  "assign_oids_loop mapping [] i result_oids = Inr result_oids"
| "assign_oids_loop mapping (oid # rest) i result_oids =
     (if mapping ! i < 0 \<or> int (length result_oids) \<le> mapping ! i then Inl Undefined_behaviour
      else assign_oids_loop mapping rest (Suc i) (result_oids[nat (mapping ! i) := oid]))"

text \<open>
  The list strategy's part of \<open>RelationBuildPartitionDesc\<close>, from the bound declarations
  of the \<open>np\<close> partitions to the array \<open>mapping\<close> and the finished \<open>boundinfo\<close>.
\<close>

definition list_bounds ::
  "PartitionKey \<Rightarrow> nat \<Rightarrow> PartitionBoundSpec list \<Rightarrow>
     pg_error + int list \<times> PartitionBoundInfoData" where
  "list_bounds key np boundspecs =
     (case list_specs_loop boundspecs 0 (-1) [] of
        Inl e \<Rightarrow> Inl e
      | Inr (null_idx, non_null_values) \<Rightarrow>
          (let all_values = qsort_arg (qsort_partition_list_value_cmp key) non_null_values;
               nd = length all_values;
               (mapping, next_index, datums, indexes) =
                  list_build_loop all_values (replicate np (-1)) 0 [] [];
               unmapped = (null_idx \<noteq> -1 \<and> mapping ! nat null_idx = -1);
               mapping' = (if unmapped then mapping[nat null_idx := next_index] else mapping)
           in Inr (mapping',
                   \<lparr>bi_strategy = strategy key, ndatums = int nd, bi_datums = datums,
                    bi_content = None, bi_indexes = indexes,
                    null_index = (if null_idx \<noteq> -1 then mapping' ! nat null_idx else -1)\<rparr>)))"

text \<open>The same for the range strategy.\<close>

definition range_bounds ::
  "PartitionKey \<Rightarrow> nat \<Rightarrow> PartitionBoundSpec list \<Rightarrow>
     pg_error + int list \<times> PartitionBoundInfoData" where
  "range_bounds key np boundspecs =
     (case range_specs_loop key boundspecs 0 [] of
        Inl e \<Rightarrow> Inl e
      | Inr unsorted \<Rightarrow>
          (let all_bounds = qsort_arg (qsort_partition_rbound_cmp key) unsorted;
               rbounds = distinct_rbounds key all_bounds;
               nd = length rbounds;
               (mapping, next_index, datums, content, indexes) =
                  range_build_loop key rbounds (replicate np (-1)) 0 [] [] []
           in Inr (mapping,
                   \<lparr>bi_strategy = strategy key, ndatums = int nd, bi_datums = datums,
                    bi_content = Some content, bi_indexes = indexes @ [-1],
                    null_index = -1\<rparr>)))"

text \<open>The choice between the two by the key's strategy, with the \<open>default:\<close> error.\<close>

definition canonical_bounds ::
  "PartitionKey \<Rightarrow> nat \<Rightarrow> PartitionBoundSpec list \<Rightarrow>
     pg_error + int list \<times> PartitionBoundInfoData" where
  "canonical_bounds key np boundspecs =
     (if strategy key = PARTITION_STRATEGY_LIST then list_bounds key np boundspecs
      else if strategy key = PARTITION_STRATEGY_RANGE then range_bounds key np boundspecs
      else Inl Unexpected_partition_strategy)"

text \<open>
  The body of \<open>RelationBuildPartitionDesc\<close> for a relation with a partition key. \<open>parts\<close> are
  the partitions found by the catalog scan, in scan order: the OID of each (the list
  \<open>partoids\<close>) with its bound declaration (the list \<open>boundspecs\<close>).
\<close>

definition build_partition_desc ::
  "PartitionKey \<Rightarrow> (Oid \<times> PartitionBoundSpec) list \<Rightarrow> pg_error + PartitionDescData" where
  "build_partition_desc key parts =
     (let np = length parts; part_oids = map fst parts; boundspecs = map snd parts in
      if np > 0 then
        (case canonical_bounds key np boundspecs of
           Inl e \<Rightarrow> Inl e
         | Inr (mapping, bi) \<Rightarrow>
             (case assign_oids_loop mapping part_oids 0 (replicate np 0) of
                Inl e \<Rightarrow> Inl e
              | Inr result_oids \<Rightarrow>
                  Inr \<lparr>nparts = int np, oids = result_oids, boundinfo = Some bi\<rparr>))
      else Inr \<lparr>nparts = 0, oids = [], boundinfo = None\<rparr>)"

text \<open>
  \<open>RelationBuildPartitionDesc\<close>: with no partition key (\<open>key == NULL\<close>) it returns at once and
  leaves \<open>rel->rd_partdesc\<close> as it was (\<open>None\<close>); otherwise \<open>rel->rd_partdesc\<close> is set.
\<close>

definition RelationBuildPartitionDesc ::
  "PartitionKey option \<Rightarrow> (Oid \<times> PartitionBoundSpec) list \<Rightarrow>
     pg_error + PartitionDescData option" where
  "RelationBuildPartitionDesc key parts =
     (case key of
        None \<Rightarrow> Inr None
      | Some k \<Rightarrow>
          (case build_partition_desc k parts of
             Inl e \<Rightarrow> Inl e
           | Inr result \<Rightarrow> Inr (Some result)))"

subsection \<open>\<open>partition_bounds_equal\<close>\<close>






section \<open>The dispatch tree builder\<close>

text \<open>
  What partition.c reads of an open \<open>Relation\<close>: its OID, its \<open>relkind\<close> (what
  \<open>get_rel_relkind\<close> returns for the OID), its partition key and its partition descriptor
  (\<open>None\<close> for \<open>NULL\<close>). The catalog is the function from OIDs to relations that \<open>heap_open\<close>
  computes; locks are not modelled. The macro \<open>RELKIND_PARTITIONED_TABLE\<close> is declared in a
  header; nothing below depends on which character it is.
\<close>

definition RELKIND_PARTITIONED_TABLE :: char where
  "RELKIND_PARTITIONED_TABLE = CHR ''P''"

record RelationData =
  rd_id :: Oid
  rd_relkind :: char
  rd_partkey :: "PartitionKey option"
  rd_partdesc :: "PartitionDescData option"

text \<open>
  \<open>PartitionDispatchData\<close>. \<open>tupslot\<close> records whether a slot was made for the node (the
  slot itself is only a buffer for the converted row); \<open>tupmap\<close> is the conversion from the
  parent's row type, \<open>None\<close> when \<open>convert_tuples_by_name\<close> finds none is needed or for the
  root. The lazily built \<open>keystate\<close> is part of \<open>partexprs\<close> of the key.
\<close>

record PartitionDispatchData =
  reldesc :: RelationData
  pd_key :: "PartitionKey option"
  pd_partdesc :: PartitionDescData
  tupslot :: bool
  tupmap :: "(Row \<Rightarrow> Row) option"
  pd_indexes :: "int list"

text \<open>The macro \<open>APPEND_REL_PARTITION_OIDS\<close>: the partition OIDs of \<open>rel\<close>, each with \<open>rel\<close>.\<close>

definition APPEND_REL_PARTITION_OIDS ::
  "RelationData \<Rightarrow> PartitionDescData \<Rightarrow> (Oid \<times> RelationData) list" where
  "APPEND_REL_PARTITION_OIDS rel partdesc =
     map (\<lambda>oid. (oid, rel)) (take (nat (nparts partdesc)) (oids partdesc))"

text \<open>
  The first loop, \<open>forboth(lc1, all_parts, lc2, all_parents)\<close>, which walks the two lists
  while it appends to them. \<open>queue\<close> holds the cells not yet visited; \<open>parted\<close> is
  \<open>parted_rels\<close> zipped with \<open>parted_rel_parents\<close>. The loop does not end on a catalog in
  which a partitioned table is its own descendant: the result is then \<open>None\<close>.
\<close>

partial_function (option) dispatch_collect ::
  "(Oid \<Rightarrow> RelationData) \<Rightarrow> (Oid \<times> RelationData) list \<Rightarrow>
     (RelationData \<times> RelationData option) list \<Rightarrow>
     (RelationData \<times> RelationData option) list option" where
  "dispatch_collect cat queue parted =
     (case queue of
        [] \<Rightarrow> Some parted
      | cell # rest \<Rightarrow>
          (case rd_partdesc (cat (fst cell)) of
             Some partdesc \<Rightarrow>
               dispatch_collect cat (rest @ APPEND_REL_PARTITION_OIDS (cat (fst cell)) partdesc)
                 (parted @ [(cat (fst cell), Some (snd cell))])
           | None \<Rightarrow> dispatch_collect cat rest parted))"

text \<open>
  The inner loop over the partitions \<open>j\<close> of one node: the state is \<open>k\<close>, \<open>m\<close>,
  \<open>*leaf_part_oids\<close> and the node's \<open>indexes\<close> filled so far.
\<close>

fun dispatch_indexes_loop ::
  "(Oid \<Rightarrow> RelationData) \<Rightarrow> Oid list \<Rightarrow> int \<Rightarrow> int \<Rightarrow> int \<Rightarrow> Oid list \<Rightarrow> int list \<Rightarrow>
     int list \<times> int \<times> int \<times> Oid list" where
  "dispatch_indexes_loop cat [] k offset m leaf_part_oids indexes =
     (indexes, k, m, leaf_part_oids)"
| "dispatch_indexes_loop cat (partrelid # rest) k offset m leaf_part_oids indexes =
     (if rd_relkind (cat partrelid) \<noteq> RELKIND_PARTITIONED_TABLE then
        dispatch_indexes_loop cat rest (k + 1) offset m (leaf_part_oids @ [partrelid])
          (indexes @ [k])
      else
        dispatch_indexes_loop cat rest k offset (m + 1) leaf_part_oids
          (indexes @ [- (1 + offset + m)]))"

text \<open>
  The second loop, over \<open>parted_rels\<close>. \<open>conv parent partrel\<close> is
  \<open>convert_tuples_by_name(RelationGetDescr(parent), RelationGetDescr(partrel), ...)\<close>, which is
  not part of partition.c.
\<close>

fun dispatch_build_loop ::
  "(Oid \<Rightarrow> RelationData) \<Rightarrow> (RelationData \<Rightarrow> RelationData \<Rightarrow> (Row \<Rightarrow> Row) option) \<Rightarrow>
     (RelationData \<times> RelationData option) list \<Rightarrow> int \<Rightarrow> int \<Rightarrow> Oid list \<Rightarrow>
     PartitionDispatchData list \<Rightarrow> pg_error + PartitionDispatchData list \<times> Oid list" where
  "dispatch_build_loop cat conv [] k offset leaf_part_oids pd = Inr (pd, leaf_part_oids)"
| "dispatch_build_loop cat conv (cell # rest) k offset leaf_part_oids pd =
     (case rd_partdesc (fst cell) of
        None \<Rightarrow> Inl Undefined_behaviour
      | Some partdesc \<Rightarrow>
          (case dispatch_indexes_loop cat (take (nat (nparts partdesc)) (oids partdesc))
                  k offset 0 leaf_part_oids [] of
             (indexes, k', m, leaf_part_oids') \<Rightarrow>
               dispatch_build_loop cat conv rest k' (offset + m) leaf_part_oids'
                 (pd @ [\<lparr>reldesc = fst cell, pd_key = rd_partkey (fst cell),
                          pd_partdesc = partdesc,
                          tupslot = (snd cell \<noteq> None),
                          tupmap = (case snd cell of None \<Rightarrow> None
                                    | Some parent \<Rightarrow> conv parent (fst cell)),
                          pd_indexes = indexes\<rparr>])))"

text \<open>
  \<open>RelationGetPartitionDispatchInfo\<close>: the result is the array \<open>pd\<close>, \<open>*num_parted\<close> and
  \<open>*leaf_part_oids\<close>. \<open>rel->rd_partdesc\<close> is dereferenced without a check.
\<close>

definition RelationGetPartitionDispatchInfo ::
  "(Oid \<Rightarrow> RelationData) \<Rightarrow> (RelationData \<Rightarrow> RelationData \<Rightarrow> (Row \<Rightarrow> Row) option) \<Rightarrow>
     RelationData \<Rightarrow> (pg_error + PartitionDispatchData list \<times> int \<times> Oid list) option" where
  "RelationGetPartitionDispatchInfo cat conv rel =
     (case rd_partdesc rel of
        None \<Rightarrow> Some (Inl Undefined_behaviour)
      | Some partdesc \<Rightarrow>
          (case dispatch_collect cat (APPEND_REL_PARTITION_OIDS rel partdesc) [(rel, None)] of
             None \<Rightarrow> None
           | Some parted \<Rightarrow>
               (case dispatch_build_loop cat conv parted 0 0 [] [] of
                  Inl e \<Rightarrow> Some (Inl e)
                | Inr (pd, leaf_part_oids) \<Rightarrow>
                    Some (Inr (pd, int (length parted), leaf_part_oids)))))"

section \<open>The tuple router\<close>

text \<open>
  Modelled from the spec: \<open>slot_getattr\<close> is not part of partition.c; a plain key column is
  read directly from the row. Attribute numbers count from 1; an attribute the row does not
  have reads as \<open>NULL\<close>. The Datum returned with a \<open>NULL\<close> is 0.
\<close>

definition slot_getattr :: "Row \<Rightarrow> int \<Rightarrow> Datum \<times> bool" where
  "slot_getattr slot attnum =
     (if 0 < attnum \<and> attnum \<le> int (length slot) then
        (case slot ! nat (attnum - 1) of None \<Rightarrow> (0, True) | Some d \<Rightarrow> (d, False))
      else (0, True))"

text \<open>
  The loop of \<open>FormPartitionKeyDatum\<close>; \<open>partexpr_item\<close> is the rest of the expression list.
  The result is the arrays \<open>values\<close> and \<open>isnull\<close>, \<open>partnatts\<close> entries each.
\<close>

function FormPartitionKeyDatum_loop ::
  "PartitionKey \<Rightarrow> Row \<Rightarrow> nat \<Rightarrow> (Row \<Rightarrow> Datum option) list \<Rightarrow> Datum list \<Rightarrow> bool list \<Rightarrow>
     pg_error + Datum list \<times> bool list" where
  "FormPartitionKeyDatum_loop key slot i partexpr_item values isnull =
     (if i < partnatts key then
        (if partattrs key ! i \<noteq> 0 then
           (case slot_getattr slot (partattrs key ! i) of
              (datum, isNull) \<Rightarrow>
                FormPartitionKeyDatum_loop key slot (Suc i) partexpr_item (values @ [datum])
                  (isnull @ [isNull]))
         else
           (case partexpr_item of
              [] \<Rightarrow> Inl Wrong_number_of_partition_key_expressions
            | e # rest \<Rightarrow>
                FormPartitionKeyDatum_loop key slot (Suc i) rest
                  (values @ [case e slot of None \<Rightarrow> 0 | Some d \<Rightarrow> d])
                  (isnull @ [e slot = None])))
      else if partexpr_item \<noteq> [] then Inl Wrong_number_of_partition_key_expressions
      else Inr (values, isnull))"
  by pat_completeness auto
termination
  by (relation "measure (\<lambda>(key, slot, i, es, vs, ns). partnatts key - i)") auto

declare FormPartitionKeyDatum_loop.simps [simp del]

definition FormPartitionKeyDatum ::
  "PartitionKey \<Rightarrow> Row \<Rightarrow> pg_error + Datum list \<times> bool list" where
  "FormPartitionKeyDatum key slot = FormPartitionKeyDatum_loop key slot 0 (partexprs key) [] []"

text \<open>
  The outcome of \<open>get_partition_for_tuple\<close>: the returned \<open>result\<close> and, when the function
  sets them, \<open>*failed_at\<close> (as the position of the node in \<open>pd\<close>) and \<open>*failed_slot\<close>.
\<close>

record RouteResult =
  route_result :: int
  failed_at :: "nat option"
  failed_slot :: "Row option"

definition route_failed :: "nat \<Rightarrow> Row \<Rightarrow> RouteResult" where
  "route_failed parent slot = \<lparr>route_result = -1, failed_at = Some parent, failed_slot = Some slot\<rparr>"

text \<open>
  The part of one iteration of the \<open>while (true)\<close> loop that computes \<open>cur_index\<close> once the
  key values are known and the range null check has passed.
\<close>

definition route_cur_index ::
  "PartitionKey \<Rightarrow> PartitionBoundInfoData \<Rightarrow> Datum list \<Rightarrow> bool list \<Rightarrow> pg_error + int" where
  "route_cur_index key bi values isnull =
     (if isnull ! 0 \<and> partition_bound_accepts_nulls bi then Inr (null_index bi)
      else if \<not> isnull ! 0 then
        (case partition_bound_bsearch key bi (Probe_Datums values) False False of
           Inl e \<Rightarrow> Inl e
         | Inr (cur_offset, equal) \<Rightarrow>
             if strategy key = PARTITION_STRATEGY_LIST then
               (if cur_offset \<ge> 0 \<and> equal then Inr (bi_indexes bi ! nat cur_offset)
                else Inr (-1))
             else if strategy key = PARTITION_STRATEGY_RANGE then
               Inr (bi_indexes bi ! nat (cur_offset + 1))
             else Inl Unexpected_partition_strategy)
      else Inr (-1))"

text \<open>
  The \<open>while (true)\<close> loop, entered for the node at position \<open>parent\<close> of \<open>pd\<close> with the row
  \<open>slot\<close>. The loop does not end if the \<open>indexes\<close> of the nodes lead around a cycle: the
  result is then \<open>None\<close>.
\<close>

partial_function (option) get_partition_for_tuple_loop ::
  "PartitionDispatchData list \<Rightarrow> nat \<Rightarrow> Row \<Rightarrow> (pg_error + RouteResult) option" where
  "get_partition_for_tuple_loop pd parent slot0 =
     (if length pd \<le> parent then Some (Inl Undefined_behaviour)
      else
        (let slot = (case (if tupslot (pd ! parent) then tupmap (pd ! parent) else None) of
                       None \<Rightarrow> slot0
                     | Some f \<Rightarrow> f slot0)
         in if nparts (pd_partdesc (pd ! parent)) = 0 then Some (Inr (route_failed parent slot))
             else
               (case pd_key (pd ! parent) of
                  None \<Rightarrow> Some (Inl Undefined_behaviour)
                | Some key \<Rightarrow>
                    (case FormPartitionKeyDatum key slot of
                       Inl e \<Rightarrow> Some (Inl e)
                     | Inr (values, isnull) \<Rightarrow>
                         if strategy key = PARTITION_STRATEGY_RANGE \<and>
                            list_ex (\<lambda>i. isnull ! i) [0..<partnatts key]
                         then Some (Inr (route_failed parent slot))
                         else
                           (case boundinfo (pd_partdesc (pd ! parent)) of
                              None \<Rightarrow> Some (Inl Undefined_behaviour)
                            | Some bi \<Rightarrow>
                                (case route_cur_index key bi values isnull of
                                   Inl e \<Rightarrow> Some (Inl e)
                                 | Inr cur_index \<Rightarrow>
                                     if cur_index < 0
                                     then Some (Inr (route_failed parent slot))
                                     else if pd_indexes (pd ! parent) ! nat cur_index \<ge> 0
                                     then Some (Inr \<lparr>route_result =
                                                        pd_indexes (pd ! parent) ! nat cur_index,
                                                      failed_at = None, failed_slot = None\<rparr>)
                                     else get_partition_for_tuple_loop pd
                                            (nat (- (pd_indexes (pd ! parent) ! nat cur_index)))
                                            slot))))))"

text \<open>\<open>get_partition_for_tuple\<close> starts with the root partitioned table, \<open>pd[0]\<close>.\<close>

definition get_partition_for_tuple ::
  "PartitionDispatchData list \<Rightarrow> Row \<Rightarrow> (pg_error + RouteResult) option" where
  "get_partition_for_tuple pd slot = get_partition_for_tuple_loop pd 0 slot"

section \<open>Concrete keys and declarations\<close>

text \<open>
  The instances the theorems below are applied to: the three-way comparison of integers
  as the support function of every column, range and list keys over integer columns, and
  declarations with finite integer bounds.
\<close>

definition int4_cmp :: "Datum \<Rightarrow> Datum \<Rightarrow> int" where
  "int4_cmp a b = (if a < b then -1 else if a = b then 0 else 1)"

definition range_key :: "nat \<Rightarrow> PartitionKey" where
  "range_key n =
     \<lparr>strategy = PARTITION_STRATEGY_RANGE, partnatts = n, partsupfunc = (\<lambda>i. int4_cmp),
      partattrs = map int [1..<Suc n], partexprs = []\<rparr>"

definition list_key :: PartitionKey where
  "list_key =
     \<lparr>strategy = PARTITION_STRATEGY_LIST, partnatts = 1, partsupfunc = (\<lambda>i. int4_cmp),
      partattrs = [1], partexprs = []\<rparr>"

definition finite_datum :: "int \<Rightarrow> PartitionRangeDatum" where
  "finite_datum v = \<lparr>infinite = False, rd_value = \<lparr>constvalue = v, constisnull = False\<rparr>\<rparr>"

definition range_spec :: "int \<Rightarrow> int \<Rightarrow> PartitionBoundSpec" where
  "range_spec lo hi =
     \<lparr>spec_strategy = PARTITION_STRATEGY_RANGE, listdatums = [],
      lowerdatums = [finite_datum lo], upperdatums = [finite_datum hi]\<rparr>"

definition list_spec :: "int list \<Rightarrow> PartitionBoundSpec" where
  "list_spec vs =
     \<lparr>spec_strategy = PARTITION_STRATEGY_LIST,
      listdatums = map (\<lambda>v. \<lparr>constvalue = v, constisnull = False\<rparr>) vs,
      lowerdatums = [], upperdatums = []\<rparr>"

text \<open>
  The descriptor of a parent with the two range partitions P1 = [10, 20), of OID 101, and
  P2 = [20, 30), of OID 102.
\<close>

definition two_range_bounds :: PartitionBoundInfoData where
  "two_range_bounds =
     \<lparr>bi_strategy = PARTITION_STRATEGY_RANGE, ndatums = 3,
      bi_datums = [[10], [20], [30]],
      bi_content = Some [[RANGE_DATUM_FINITE], [RANGE_DATUM_FINITE], [RANGE_DATUM_FINITE]],
      bi_indexes = [-1, 0, 1, -1], null_index = -1\<rparr>"

definition two_range_parts :: PartitionDescData where
  "two_range_parts = \<lparr>nparts = 2, oids = [101, 102], boundinfo = Some two_range_bounds\<rparr>"

declare get_partition_for_tuple_loop.simps [code]

declare dispatch_collect.simps [code]

text \<open>
  The row a node works on: the incoming row, converted when the node has both a slot and
  a conversion map.
\<close>

definition node_slot :: "PartitionDispatchData \<Rightarrow> Row \<Rightarrow> Row" where
  "node_slot node slot0 =
     (case (if tupslot node then tupmap node else None) of None \<Rightarrow> slot0 | Some f \<Rightarrow> f slot0)"

text \<open>
  A two-level hierarchy. The root (OID 200) is list partitioned on its first column into
  P1 = {1, 2} (OID 201, a leaf), P2 = {3, 4} (OID 202) and P3 = {NULL} (OID 203, a leaf).
  P2 is itself range partitioned, like \<open>two_range_parts\<close>, on the column that is second
  in the root's rows and first in its own: its conversion map swaps the two columns.
\<close>

definition null_list_parts :: PartitionDescData where
  "null_list_parts =
     \<lparr>nparts = 3, oids = [201, 202, 203],
      boundinfo = Some \<lparr>bi_strategy = PARTITION_STRATEGY_LIST, ndatums = 4,
         bi_datums = [[1], [2], [3], [4]], bi_content = None,
         bi_indexes = [0, 0, 1, 1], null_index = 2\<rparr>\<rparr>"

definition example_root :: RelationData where
  "example_root =
     \<lparr>rd_id = 200, rd_relkind = RELKIND_PARTITIONED_TABLE,
      rd_partkey = Some list_key, rd_partdesc = Some null_list_parts\<rparr>"

definition example_child :: RelationData where
  "example_child =
     \<lparr>rd_id = 202, rd_relkind = RELKIND_PARTITIONED_TABLE,
      rd_partkey = Some (range_key 1), rd_partdesc = Some two_range_parts\<rparr>"

definition example_catalog :: "Oid \<Rightarrow> RelationData" where
  "example_catalog oid =
     (if oid = 200 then example_root
      else if oid = 202 then example_child
      else \<lparr>rd_id = oid, rd_relkind = CHR ''r'', rd_partkey = None, rd_partdesc = None\<rparr>)"

definition example_conv :: "RelationData \<Rightarrow> RelationData \<Rightarrow> (Row \<Rightarrow> Row) option" where
  "example_conv parent partrel = (if rd_id partrel = 202 then Some rev else None)"

definition example_pd :: "PartitionDispatchData list" where
  "example_pd =
     [\<lparr>reldesc = example_root,
       pd_key = Some list_key, pd_partdesc = null_list_parts, tupslot = False, tupmap = None,
       pd_indexes = [0, -1, 1]\<rparr>,
      \<lparr>reldesc = example_child,
       pd_key = Some (range_key 1), pd_partdesc = two_range_parts, tupslot = True,
       tupmap = Some rev, pd_indexes = [2, 3]\<rparr>]"

text \<open>A range marker over one integer column: owner, value and edge kind.\<close>

definition range_marker :: "int \<Rightarrow> int \<Rightarrow> bool \<Rightarrow> PartitionRangeBound" where
  "range_marker i v lower =
     \<lparr>rb_index = i, rb_datums = [v], rb_content = [RANGE_DATUM_FINITE], rb_lower = lower\<rparr>"

text \<open>The partition OIDs a dispatch node's \<open>indexes\<close> array has one entry for.\<close>

definition dispatch_node_oids :: "PartitionDispatchData \<Rightarrow> Oid list" where
  "dispatch_node_oids node = take (nat (nparts (pd_partdesc node))) (oids (pd_partdesc node))"

text \<open>
  Notions used to state what the dispatch builder computes: whether \<open>get_rel_relkind\<close> says
  an OID is a leaf, the partition OIDs of a relation, the entries the inner loop appends
  for a list of partition OIDs when \<open>k\<close> leaves and \<open>n\<close> partitioned tables were counted
  before, and the nodes the outer loop appends.
\<close>

definition is_leaf_oid :: "(Oid \<Rightarrow> RelationData) \<Rightarrow> Oid \<Rightarrow> bool" where
  "is_leaf_oid cat oid \<longleftrightarrow> rd_relkind (cat oid) \<noteq> RELKIND_PARTITIONED_TABLE"

definition rel_part_oids :: "RelationData \<Rightarrow> Oid list" where
  "rel_part_oids r =
     (case rd_partdesc r of None \<Rightarrow> [] | Some d \<Rightarrow> take (nat (nparts d)) (oids d))"

fun dispatch_entries :: "(Oid \<Rightarrow> RelationData) \<Rightarrow> Oid list \<Rightarrow> int \<Rightarrow> int \<Rightarrow> int list" where
  "dispatch_entries cat [] k n = []"
| "dispatch_entries cat (oid # rest) k n =
     (if is_leaf_oid cat oid then k # dispatch_entries cat rest (k + 1) n
      else (- (1 + n)) # dispatch_entries cat rest k (n + 1))"

fun dispatch_nodes ::
  "(Oid \<Rightarrow> RelationData) \<Rightarrow> (RelationData \<Rightarrow> RelationData \<Rightarrow> (Row \<Rightarrow> Row) option) \<Rightarrow>
     (RelationData \<times> RelationData option) list \<Rightarrow> int \<Rightarrow> int \<Rightarrow> PartitionDispatchData list" where
  "dispatch_nodes cat conv [] k n = []"
| "dispatch_nodes cat conv (cell # rest) k n =
     \<lparr>reldesc = fst cell, pd_key = rd_partkey (fst cell),
      pd_partdesc = the (rd_partdesc (fst cell)),
      tupslot = (snd cell \<noteq> None),
      tupmap = (case snd cell of None \<Rightarrow> None | Some parent \<Rightarrow> conv parent (fst cell)),
      pd_indexes = dispatch_entries cat (rel_part_oids (fst cell)) k n\<rparr>
     # dispatch_nodes cat conv rest
         (k + int (length (filter (is_leaf_oid cat) (rel_part_oids (fst cell)))))
         (n + int (length (filter (\<lambda>oid. \<not> is_leaf_oid cat oid) (rel_part_oids (fst cell)))))"

section \<open>Notions for the canonicalizer's ordinal mapping\<close>

subsection \<open>Comparators\<close>

text \<open>
  What \<open>qsort_arg\<close> needs of a comparator: the sign of \<open>cmp a b\<close> is the opposite of the
  sign of \<open>cmp b a\<close>, and \<open>\<le> 0\<close> is transitive. The support functions of a partition
  key are arbitrary functions in the model, so this is a hypothesis about them.
\<close>

definition cmp_total_preorder :: "('a \<Rightarrow> 'a \<Rightarrow> int) \<Rightarrow> bool" where
  "cmp_total_preorder cmp \<longleftrightarrow>
     (\<forall>a b. 0 < cmp a b \<longleftrightarrow> cmp b a < 0) \<and>
     (\<forall>a b c. cmp a b \<le> 0 \<and> cmp b c \<le> 0 \<longrightarrow> cmp a c \<le> 0)"

text \<open>
  One iteration of the loop of \<open>partition_rbound_cmp\<close> seen as a function of the column:
  \<open>Some v\<close> when the loop is left at column \<open>i\<close> with \<open>cmpval = v\<close>, \<open>None\<close> when the
  column is finite on both sides and compares equal. \<open>rbound_cmp_from\<close> is the comparator
  started at column \<open>i\<close>.
\<close>

definition col_step :: "PartitionKey \<Rightarrow> PartitionRangeBound \<Rightarrow> PartitionRangeBound \<Rightarrow> nat \<Rightarrow> int option"
  where
  "col_step key a b i =
     (if rb_content a ! i \<noteq> RANGE_DATUM_FINITE \<and> rb_content b ! i \<noteq> RANGE_DATUM_FINITE then
        Some (if rb_content a ! i = rb_content b ! i then 0
              else if content_num (rb_content a ! i) < content_num (rb_content b ! i) then -1
              else 1)
      else if rb_content a ! i \<noteq> RANGE_DATUM_FINITE then
        Some (if rb_content a ! i = RANGE_DATUM_NEG_INF then -1 else 1)
      else if rb_content b ! i \<noteq> RANGE_DATUM_FINITE then
        Some (if rb_content b ! i = RANGE_DATUM_NEG_INF then 1 else -1)
      else if partsupfunc key i (rb_datums a ! i) (rb_datums b ! i) \<noteq> 0 then
        Some (partsupfunc key i (rb_datums a ! i) (rb_datums b ! i))
      else None)"

definition rbound_cmp_from ::
  "PartitionKey \<Rightarrow> PartitionRangeBound \<Rightarrow> PartitionRangeBound \<Rightarrow> nat \<Rightarrow> int" where
  "rbound_cmp_from key a b i =
     (case rbound_cmp_loop key (rb_datums a) (rb_content a) (rb_datums b) (rb_content b) i 0 of
        Inl v \<Rightarrow> v
      | Inr c \<Rightarrow>
          if c = 0 \<and> rb_lower a \<noteq> rb_lower b then (if rb_lower a then 1 else -1) else c)"

subsection \<open>The mapping array\<close>

text \<open>
  The positions of \<open>mapping\<close> already assigned, and the invariant of the loops that fill it:
  the assigned entries are pairwise different and are exactly the ordinals below
  \<open>next_index\<close>.
\<close>

definition mapped :: "nat \<Rightarrow> int list \<Rightarrow> nat set" where
  "mapped n m = {i. i < n \<and> m ! i \<noteq> -1}"

definition mapping_inv :: "nat \<Rightarrow> int list \<Rightarrow> int \<Rightarrow> bool" where
  "mapping_inv n m next_index \<longleftrightarrow>
     length m = n \<and> 0 \<le> next_index \<and> inj_on (\<lambda>i. m ! i) (mapped n m) \<and>
     (\<lambda>i. m ! i) ` mapped n m = {0..<next_index}"

subsection \<open>Valid declarations\<close>

text \<open>
  The list values and the null owner that the collecting loops compute when they raise no
  error, as functions of the declarations; \<open>i\<close> is the position of the first declaration.
\<close>

fun list_values_of :: "PartitionBoundSpec list \<Rightarrow> int \<Rightarrow> PartitionListValue list" where
  "list_values_of [] i = []"
| "list_values_of (spec # rest) i =
     map (\<lambda>c. \<lparr>lv_index = i, lv_value = constvalue c\<rparr>)
       (filter (\<lambda>c. \<not> constisnull c) (listdatums spec))
     @ list_values_of rest (i + 1)"

fun list_null_of :: "PartitionBoundSpec list \<Rightarrow> int \<Rightarrow> int \<Rightarrow> int" where
  "list_null_of [] i null_idx = null_idx"
| "list_null_of (spec # rest) i null_idx =
     list_null_of rest (i + 1) (if \<exists>c \<in> set (listdatums spec). constisnull c then i else null_idx)"

text \<open>
  A valid set of list partitions: every declaration is a list declaration with at least one
  value, and at most one of all the values is null.
\<close>

definition valid_list_parts :: "PartitionBoundSpec list \<Rightarrow> bool" where
  "valid_list_parts specs \<longleftrightarrow>
     (\<forall>s \<in> set specs. spec_strategy s = PARTITION_STRATEGY_LIST \<and> listdatums s \<noteq> []) \<and>
     length (filter constisnull (concat (map listdatums specs))) \<le> 1"

text \<open>
  The lower and upper marker of a range declaration, and the markers the collecting loop
  computes for a list of declarations.
\<close>

definition spec_lower :: "PartitionKey \<Rightarrow> PartitionBoundSpec \<Rightarrow> pg_error + PartitionRangeBound" where
  "spec_lower key spec = make_one_range_bound key (-1) (lowerdatums spec) True"

definition spec_upper :: "PartitionKey \<Rightarrow> PartitionBoundSpec \<Rightarrow> pg_error + PartitionRangeBound" where
  "spec_upper key spec = make_one_range_bound key (-1) (upperdatums spec) False"

fun range_markers_of :: "PartitionKey \<Rightarrow> PartitionBoundSpec list \<Rightarrow> int \<Rightarrow> PartitionRangeBound list"
  where
  "range_markers_of key [] i = []"
| "range_markers_of key (spec # rest) i =
     [(projr (spec_lower key spec))\<lparr>rb_index := i\<rparr>, (projr (spec_upper key spec))\<lparr>rb_index := i\<rparr>]
     @ range_markers_of key rest (i + 1)"

text \<open>
  Two ranges do not overlap when the upper edge of one is not above the lower edge of the
  other. A valid set of range partitions: the key has a column, its support functions are
  total preorders, every declaration is a range declaration whose two markers can be built
  with the lower edge strictly below the upper edge, and the ranges of two different
  positions do not overlap.
\<close>

definition ranges_disjoint :: "PartitionKey \<Rightarrow> PartitionBoundSpec \<Rightarrow> PartitionBoundSpec \<Rightarrow> bool" where
  "ranges_disjoint key s t \<longleftrightarrow>
     qsort_partition_rbound_cmp key (projr (spec_upper key s)) (projr (spec_lower key t)) \<le> 0 \<or>
     qsort_partition_rbound_cmp key (projr (spec_upper key t)) (projr (spec_lower key s)) \<le> 0"

definition valid_range_parts :: "PartitionKey \<Rightarrow> PartitionBoundSpec list \<Rightarrow> bool" where
  "valid_range_parts key specs \<longleftrightarrow>
     0 < partnatts key \<and>
     (\<forall>j<partnatts key. cmp_total_preorder (partsupfunc key j)) \<and>
     (\<forall>s \<in> set specs. spec_strategy s = PARTITION_STRATEGY_RANGE \<and>
        (\<exists>l u. spec_lower key s = Inr l \<and> spec_upper key s = Inr u \<and>
               qsort_partition_rbound_cmp key l u < 0)) \<and>
     (\<forall>p q. p < length specs \<and> q < length specs \<and> p \<noteq> q \<longrightarrow>
        ranges_disjoint key (specs ! p) (specs ! q))"

definition valid_parts :: "PartitionKey \<Rightarrow> PartitionBoundSpec list \<Rightarrow> bool" where
  "valid_parts key specs \<longleftrightarrow>
     strategy key = PARTITION_STRATEGY_LIST \<and> valid_list_parts specs \<or>
     strategy key = PARTITION_STRATEGY_RANGE \<and> valid_range_parts key specs"

text \<open>
  A list declaration that holds only the null value.
\<close>

definition null_spec :: PartitionBoundSpec where
  "null_spec =
     \<lparr>spec_strategy = PARTITION_STRATEGY_LIST,
      listdatums = [\<lparr>constvalue = 0, constisnull = True\<rparr>],
      lowerdatums = [], upperdatums = []\<rparr>"

section \<open>Notions for the independence of the declaration order\<close>








section \<open>Notions for the merged boundary sequence\<close>

text \<open>
  The test of the \<open>is_distinct\<close> loop for the sorted marker at position \<open>i\<close>, as a
  condition on the markers: the key has a column in which the marker is the first one, or
  it or the marker before it is infinite, or the two values compare unequal.
\<close>

definition marker_kept :: "PartitionKey \<Rightarrow> PartitionRangeBound list \<Rightarrow> nat \<Rightarrow> bool" where
  "marker_kept key all_bounds i \<longleftrightarrow>
     (\<exists>j<partnatts key.
        i = 0 \<or>
        rb_content (all_bounds ! i) ! j \<noteq> RANGE_DATUM_FINITE \<or>
        rb_content (all_bounds ! (i - 1)) ! j \<noteq> RANGE_DATUM_FINITE \<or>
        partsupfunc key j (rb_datums (all_bounds ! i) ! j) (rb_datums (all_bounds ! (i - 1)) ! j) \<noteq> 0)"

text \<open>
  The rows that the range loop stores in \<open>boundinfo->datums\<close> and \<open>boundinfo->content\<close> for a
  marker (0 in the datum slot of an infinite column, as in \<open>range_build_loop\<close>).
\<close>

definition marker_datums :: "PartitionKey \<Rightarrow> PartitionRangeBound \<Rightarrow> Datum list" where
  "marker_datums key rb =
     map (\<lambda>j. if rb_content rb ! j = RANGE_DATUM_FINITE then rb_datums rb ! j else 0)
       [0..<partnatts key]"

definition marker_content :: "PartitionKey \<Rightarrow> PartitionRangeBound \<Rightarrow> RangeDatumContent list" where
  "marker_content key rb = map (\<lambda>j. rb_content rb ! j) [0..<partnatts key]"

section \<open>Properties of the comparator\<close>

text \<open>
  While the columns from \<open>j\<close> up to \<open>i\<close> are finite on both sides and compare equal, the loop
  of \<open>partition_rbound_cmp\<close> only advances.
\<close>

lemma rbound_cmp_loop_skip_equal:
  assumes "j \<le> i" "i \<le> partnatts key"
    and "\<forall>c. j \<le> c \<and> c < i \<longrightarrow>
           content1 ! c = RANGE_DATUM_FINITE \<and> content2 ! c = RANGE_DATUM_FINITE \<and>
           partsupfunc key c (datums1 ! c) (datums2 ! c) = 0"
  shows "rbound_cmp_loop key datums1 content1 datums2 content2 j 0
         = rbound_cmp_loop key datums1 content1 datums2 content2 i 0"
  using assms
proof (induction "i - j" arbitrary: j)
  case 0
  then show ?case by simp
next
  case (Suc n)
  then have lt: "j < i" and jn: "j < partnatts key" by auto
  from Suc.prems(3) lt have fin:
    "content1 ! j = RANGE_DATUM_FINITE" "content2 ! j = RANGE_DATUM_FINITE"
    "partsupfunc key j (datums1 ! j) (datums2 ! j) = 0" by auto
  have step: "rbound_cmp_loop key datums1 content1 datums2 content2 j 0
      = rbound_cmp_loop key datums1 content1 datums2 content2 (Suc j) 0"
    using jn fin by (subst rbound_cmp_loop.simps) simp
  have "rbound_cmp_loop key datums1 content1 datums2 content2 (Suc j) 0
      = rbound_cmp_loop key datums1 content1 datums2 content2 i 0"
    using Suc.hyps(2) lt Suc.prems(2,3) by (intro Suc.hyps(1)) auto
  with step show ?case by simp
qed

text \<open>
  Claim C5. When every key column is finite on both sides and compares equal under the
  column's support function, \<open>partition_rbound_cmp\<close> decides by the edge kinds alone: the
  result is 1 when the first marker is a lower edge and the second an upper edge, -1 the
  other way round, and 0 when both are the same kind of edge.
\<close>

theorem partition_rbound_cmp_edge_tiebreak:
  assumes "\<forall>i<partnatts key. content1 ! i = RANGE_DATUM_FINITE \<and>
             rb_content b2 ! i = RANGE_DATUM_FINITE \<and>
             partsupfunc key i (datums1 ! i) (rb_datums b2 ! i) = 0"
  shows "partition_rbound_cmp key datums1 content1 lower1 b2 =
           (if lower1 = rb_lower b2 then 0 else if lower1 then 1 else -1)"
proof -
  have "rbound_cmp_loop key datums1 content1 (rb_datums b2) (rb_content b2) 0 0
      = rbound_cmp_loop key datums1 content1 (rb_datums b2) (rb_content b2) (partnatts key) 0"
    using assms by (intro rbound_cmp_loop_skip_equal) auto
  also have "\<dots> = Inr 0"
    by (subst rbound_cmp_loop.simps) simp
  finally show ?thesis
    by (simp add: partition_rbound_cmp_def)
qed

theorem partition_rbound_cmp_edge_tiebreak_witness:
  "partition_rbound_cmp (range_key 2) [5, 7] [RANGE_DATUM_FINITE, RANGE_DATUM_FINITE] True
     \<lparr>rb_index = 0, rb_datums = [5, 7],
      rb_content = [RANGE_DATUM_FINITE, RANGE_DATUM_FINITE], rb_lower = False\<rparr> = 1
   \<and> partition_rbound_cmp (range_key 2) [5, 7] [RANGE_DATUM_FINITE, RANGE_DATUM_FINITE] False
     \<lparr>rb_index = 0, rb_datums = [5, 7],
      rb_content = [RANGE_DATUM_FINITE, RANGE_DATUM_FINITE], rb_lower = True\<rparr> = -1"
  using partition_rbound_cmp_edge_tiebreak [of "range_key 2"
      "[RANGE_DATUM_FINITE, RANGE_DATUM_FINITE]"
      "\<lparr>rb_index = 0, rb_datums = [5, 7],
        rb_content = [RANGE_DATUM_FINITE, RANGE_DATUM_FINITE], rb_lower = False\<rparr>" "[5, 7]" True]
    partition_rbound_cmp_edge_tiebreak [of "range_key 2"
      "[RANGE_DATUM_FINITE, RANGE_DATUM_FINITE]"
      "\<lparr>rb_index = 0, rb_datums = [5, 7],
        rb_content = [RANGE_DATUM_FINITE, RANGE_DATUM_FINITE], rb_lower = True\<rparr>" "[5, 7]" False]
  by (simp add: range_key_def int4_cmp_def less_2_cases_iff)

text \<open>
  Claim C10. If the two markers carry the same infinity at column \<open>i\<close> and every earlier
  column is finite on both sides and compares equal, \<open>partition_rbound_cmp\<close> returns 0 from
  inside the loop: whatever the later columns hold and whatever the two edge kinds are.
\<close>

theorem partition_rbound_cmp_same_infinity:
  assumes "i < partnatts key"
    and "\<forall>j<i. content1 ! j = RANGE_DATUM_FINITE \<and> rb_content b2 ! j = RANGE_DATUM_FINITE \<and>
           partsupfunc key j (datums1 ! j) (rb_datums b2 ! j) = 0"
    and "content1 ! i \<noteq> RANGE_DATUM_FINITE"
    and "rb_content b2 ! i = content1 ! i"
  shows "partition_rbound_cmp key datums1 content1 lower1 b2 = 0"
proof -
  have "rbound_cmp_loop key datums1 content1 (rb_datums b2) (rb_content b2) 0 0
      = rbound_cmp_loop key datums1 content1 (rb_datums b2) (rb_content b2) i 0"
    using assms(1,2) by (intro rbound_cmp_loop_skip_equal) auto
  also have "\<dots> = Inl 0"
    using assms(1,3,4) by (subst rbound_cmp_loop.simps) simp
  finally show ?thesis
    by (simp add: partition_rbound_cmp_def)
qed

theorem partition_rbound_cmp_same_infinity_witness:
  "partition_rbound_cmp (range_key 3) [5, 0, 1]
     [RANGE_DATUM_FINITE, RANGE_DATUM_POS_INF, RANGE_DATUM_FINITE] True
     \<lparr>rb_index = 0, rb_datums = [5, 0, 2],
      rb_content = [RANGE_DATUM_FINITE, RANGE_DATUM_POS_INF, RANGE_DATUM_FINITE],
      rb_lower = False\<rparr> = 0"
  using partition_rbound_cmp_same_infinity [of 1 "range_key 3"
      "[RANGE_DATUM_FINITE, RANGE_DATUM_POS_INF, RANGE_DATUM_FINITE]"
      "\<lparr>rb_index = 0, rb_datums = [5, 0, 2],
        rb_content = [RANGE_DATUM_FINITE, RANGE_DATUM_POS_INF, RANGE_DATUM_FINITE],
        rb_lower = False\<rparr>" "[5, 0, 1]" True]
  by (simp add: range_key_def int4_cmp_def)

section \<open>Properties of the overlap checker\<close>

lemma strategy_tags_distinct [simp]:
  "PARTITION_STRATEGY_RANGE \<noteq> PARTITION_STRATEGY_LIST"
  "PARTITION_STRATEGY_LIST \<noteq> PARTITION_STRATEGY_RANGE"
  by (simp_all add: PARTITION_STRATEGY_RANGE_def PARTITION_STRATEGY_LIST_def)

text \<open>
  Claim C7. For a range key, once the two edges of the candidate are computed and the lower
  edge compares greater than or equal to the upper edge, \<open>check_new_partition_bound\<close>
  reports the empty range. The parent's descriptor is arbitrary: the report comes before
  any search, also for a parent without partitions, and it is not the overlap report.
\<close>

theorem check_new_partition_bound_empty_range:
  assumes "strategy key = PARTITION_STRATEGY_RANGE"
    and "make_one_range_bound key (-1) (lowerdatums spec) True = Inr lower"
    and "make_one_range_bound key (-1) (upperdatums spec) False = Inr upper"
    and "partition_rbound_cmp key (rb_datums lower) (rb_content lower) True upper \<ge> 0"
  shows "check_new_partition_bound key partdesc spec = Inl Empty_range
         \<and> check_new_partition_bound key partdesc spec \<noteq> Inl (Would_overlap_oid oid)"
  using assms by (simp add: check_new_partition_bound_def)

theorem check_new_partition_bound_empty_range_witness:
  "check_new_partition_bound (range_key 1) two_range_parts (range_spec 30 30) = Inl Empty_range
   \<and> check_new_partition_bound (range_key 1) \<lparr>nparts = 0, oids = [], boundinfo = None\<rparr>
        (range_spec 7 5) = Inl Empty_range"
proof -
  have s: "strategy (range_key 1) = PARTITION_STRATEGY_RANGE"
    by (simp add: range_key_def)
  have l1: "make_one_range_bound (range_key 1) (-1) (lowerdatums (range_spec 30 30)) True
     = Inr \<lparr>rb_index = -1, rb_datums = [30], rb_content = [RANGE_DATUM_FINITE],
            rb_lower = True\<rparr>"
    by code_simp
  have u1: "make_one_range_bound (range_key 1) (-1) (upperdatums (range_spec 30 30)) False
     = Inr \<lparr>rb_index = -1, rb_datums = [30], rb_content = [RANGE_DATUM_FINITE],
            rb_lower = False\<rparr>"
    by code_simp
  have c1: "partition_rbound_cmp (range_key 1)
          (rb_datums \<lparr>rb_index = -1, rb_datums = [30], rb_content = [RANGE_DATUM_FINITE],
                      rb_lower = True\<rparr>)
          (rb_content \<lparr>rb_index = -1, rb_datums = [30], rb_content = [RANGE_DATUM_FINITE],
                       rb_lower = True\<rparr>) True
          \<lparr>rb_index = -1, rb_datums = [30], rb_content = [RANGE_DATUM_FINITE],
           rb_lower = False\<rparr> \<ge> 0"
    by code_simp
  have l2: "make_one_range_bound (range_key 1) (-1) (lowerdatums (range_spec 7 5)) True
     = Inr \<lparr>rb_index = -1, rb_datums = [7], rb_content = [RANGE_DATUM_FINITE],
            rb_lower = True\<rparr>"
    by code_simp
  have u2: "make_one_range_bound (range_key 1) (-1) (upperdatums (range_spec 7 5)) False
     = Inr \<lparr>rb_index = -1, rb_datums = [5], rb_content = [RANGE_DATUM_FINITE],
            rb_lower = False\<rparr>"
    by code_simp
  have c2: "partition_rbound_cmp (range_key 1)
          (rb_datums \<lparr>rb_index = -1, rb_datums = [7], rb_content = [RANGE_DATUM_FINITE],
                      rb_lower = True\<rparr>)
          (rb_content \<lparr>rb_index = -1, rb_datums = [7], rb_content = [RANGE_DATUM_FINITE],
                       rb_lower = True\<rparr>) True
          \<lparr>rb_index = -1, rb_datums = [5], rb_content = [RANGE_DATUM_FINITE],
           rb_lower = False\<rparr> \<ge> 0"
    by code_simp
  show ?thesis
    using check_new_partition_bound_empty_range [OF s l1 u1 c1, of two_range_parts]
      check_new_partition_bound_empty_range [OF s l2 u2 c2,
        of "\<lparr>nparts = 0, oids = [], boundinfo = None\<rparr>"]
    by simp
qed

text \<open>
  Claim C4. \<open>RelationBuildPartitionDesc\<close> on the two partitions P1 = [10, 20) (OID 101) and
  P2 = [20, 30) (OID 102) over one integer column, read in either order, yields the
  descriptor \<open>two_range_parts\<close>. Against it, the candidate [15, 25) is reported to overlap
  P1, the candidate [20, 30) is reported to overlap P2, and the candidate [30, 40) passes
  without a report.
\<close>

theorem check_new_partition_bound_example:
  "RelationBuildPartitionDesc (Some (range_key 1))
       [(101, range_spec 10 20), (102, range_spec 20 30)] = Inr (Some two_range_parts)
   \<and> RelationBuildPartitionDesc (Some (range_key 1))
       [(102, range_spec 20 30), (101, range_spec 10 20)] = Inr (Some two_range_parts)
   \<and> check_new_partition_bound (range_key 1) two_range_parts (range_spec 15 25)
       = Inl (Would_overlap_oid 101)
   \<and> check_new_partition_bound (range_key 1) two_range_parts (range_spec 20 30)
       = Inl (Would_overlap_oid 102)
   \<and> check_new_partition_bound (range_key 1) two_range_parts (range_spec 30 40) = Inr ()"
  by code_simp

section \<open>Properties of the tuple router\<close>

text \<open>
  Claim C6. Take a node of the dispatch array that has partitions and whose key values
  were extracted from the (converted) row. If the node is range partitioned and any of its
  key columns is null, the loop of \<open>get_partition_for_tuple\<close> ends there with result -1,
  \<open>*failed_at\<close> the node and \<open>*failed_slot\<close> the row: the bound collection does not occur in
  the outcome. If the node is list partitioned and the first key column is null, the loop
  fails in the same way when the collection has no null-accepting partition; otherwise it
  takes the entry of the null-accepting partition in the node's \<open>indexes\<close>: a leaf ordinal
  is the result, a node reference continues the loop at that node.
\<close>

theorem get_partition_for_tuple_null_key:
  assumes "parent < length pd"
    and "pd_key (pd ! parent) = Some key"
    and "nparts (pd_partdesc (pd ! parent)) \<noteq> 0"
    and "FormPartitionKeyDatum key (node_slot (pd ! parent) slot0) = Inr (values, isnull)"
  shows "(strategy key = PARTITION_STRATEGY_RANGE \<and> (\<exists>i<partnatts key. isnull ! i) \<longrightarrow>
            get_partition_for_tuple_loop pd parent slot0
              = Some (Inr (route_failed parent (node_slot (pd ! parent) slot0))))
       \<and> (strategy key = PARTITION_STRATEGY_LIST \<and> isnull ! 0 \<and>
            boundinfo (pd_partdesc (pd ! parent)) = Some bi \<longrightarrow>
            (if \<not> partition_bound_accepts_nulls bi \<or> null_index bi < 0 then
               get_partition_for_tuple_loop pd parent slot0
                 = Some (Inr (route_failed parent (node_slot (pd ! parent) slot0)))
             else if pd_indexes (pd ! parent) ! nat (null_index bi) \<ge> 0 then
               get_partition_for_tuple_loop pd parent slot0
                 = Some (Inr \<lparr>route_result = pd_indexes (pd ! parent) ! nat (null_index bi),
                              failed_at = None, failed_slot = None\<rparr>)
             else
               get_partition_for_tuple_loop pd parent slot0
                 = get_partition_for_tuple_loop pd
                     (nat (- (pd_indexes (pd ! parent) ! nat (null_index bi))))
                     (node_slot (pd ! parent) slot0)))"
proof (intro conjI impI)
  assume a: "strategy key = PARTITION_STRATEGY_RANGE \<and> (\<exists>i<partnatts key. isnull ! i)"
  then have ex: "list_ex (\<lambda>i. isnull ! i) [0..<partnatts key]"
    by (auto simp: list_ex_iff)
  show "get_partition_for_tuple_loop pd parent slot0
          = Some (Inr (route_failed parent (node_slot (pd ! parent) slot0)))"
    using assms a ex
    by (intro trans [OF get_partition_for_tuple_loop.simps]) (simp add: node_slot_def Let_def)
next
  assume a: "strategy key = PARTITION_STRATEGY_LIST \<and> isnull ! 0 \<and>
            boundinfo (pd_partdesc (pd ! parent)) = Some bi"
  have nr: "strategy key \<noteq> PARTITION_STRATEGY_RANGE" using a by simp
  have ci: "route_cur_index key bi values isnull
      = (if partition_bound_accepts_nulls bi then Inr (null_index bi) else Inr (-1))"
    using a by (simp add: route_cur_index_def)
  consider (none) "\<not> partition_bound_accepts_nulls bi \<or> null_index bi < 0"
    | (leaf) "partition_bound_accepts_nulls bi" "0 \<le> null_index bi"
        "pd_indexes (pd ! parent) ! nat (null_index bi) \<ge> 0"
    | (node) "partition_bound_accepts_nulls bi" "0 \<le> null_index bi"
        "\<not> pd_indexes (pd ! parent) ! nat (null_index bi) \<ge> 0"
    by linarith
  then show "if \<not> partition_bound_accepts_nulls bi \<or> null_index bi < 0 then
               get_partition_for_tuple_loop pd parent slot0
                 = Some (Inr (route_failed parent (node_slot (pd ! parent) slot0)))
             else if pd_indexes (pd ! parent) ! nat (null_index bi) \<ge> 0 then
               get_partition_for_tuple_loop pd parent slot0
                 = Some (Inr \<lparr>route_result = pd_indexes (pd ! parent) ! nat (null_index bi),
                              failed_at = None, failed_slot = None\<rparr>)
             else
               get_partition_for_tuple_loop pd parent slot0
                 = get_partition_for_tuple_loop pd
                     (nat (- (pd_indexes (pd ! parent) ! nat (null_index bi))))
                     (node_slot (pd ! parent) slot0)"
  proof cases
    case none
    have "get_partition_for_tuple_loop pd parent slot0
            = Some (Inr (route_failed parent (node_slot (pd ! parent) slot0)))"
      using assms a nr ci none
      by (intro trans [OF get_partition_for_tuple_loop.simps])
         (auto simp add: node_slot_def Let_def)
    with none show ?thesis by simp
  next
    case leaf
    have "get_partition_for_tuple_loop pd parent slot0
            = Some (Inr \<lparr>route_result = pd_indexes (pd ! parent) ! nat (null_index bi),
                              failed_at = None, failed_slot = None\<rparr>)"
      using assms a nr ci leaf
      by (intro trans [OF get_partition_for_tuple_loop.simps])
         (simp add: node_slot_def Let_def)
    with leaf show ?thesis by simp
  next
    case node
    have "get_partition_for_tuple_loop pd parent slot0
            = get_partition_for_tuple_loop pd
                     (nat (- (pd_indexes (pd ! parent) ! nat (null_index bi))))
                     (node_slot (pd ! parent) slot0)"
      using assms a nr ci node
      by (intro trans [OF get_partition_for_tuple_loop.simps])
         (simp add: node_slot_def Let_def)
    with node show ?thesis by simp
  qed
qed

theorem get_partition_for_tuple_null_key_witness:
  "get_partition_for_tuple_loop example_pd 0 [None, Some 5]
     = Some (Inr \<lparr>route_result = 1, failed_at = None, failed_slot = None\<rparr>)
   \<and> get_partition_for_tuple_loop example_pd 1 [Some 3, None]
     = Some (Inr (route_failed 1 [None, Some 3]))"
proof -
  have f0: "FormPartitionKeyDatum list_key (node_slot (example_pd ! 0) [None, Some 5])
     = Inr ([0], [True])"
    by code_simp
  have f1: "FormPartitionKeyDatum (range_key 1) (node_slot (example_pd ! 1) [Some 3, None])
     = Inr ([0], [True])"
    by code_simp
  have n1: "node_slot (example_pd ! 1) [Some 3, None] = [None, Some 3]"
    by code_simp
  show ?thesis
    using get_partition_for_tuple_null_key [of 0 example_pd list_key "[None, Some 5]" "[0]" "[True]"
        "\<lparr>bi_strategy = PARTITION_STRATEGY_LIST, ndatums = 4,
         bi_datums = [[1], [2], [3], [4]], bi_content = None,
         bi_indexes = [0, 0, 1, 1], null_index = 2\<rparr>", OF _ _ _ f0]
      get_partition_for_tuple_null_key [of 1 example_pd "range_key 1" "[Some 3, None]" "[0]" "[True]" undefined,
        OF _ _ _ f1] n1
    by (simp add: example_pd_def null_list_parts_def two_range_parts_def two_range_bounds_def
        list_key_def range_key_def partition_bound_accepts_nulls_def)
qed

section \<open>Properties of the bound index\<close>

text \<open>
  The loop invariant of \<open>partition_bound_bsearch\<close>: the boundaries up to \<open>lo\<close> are not
  greater than the probe, the boundaries after \<open>hi\<close> are, and \<open>*is_equal\<close> describes the
  boundary at \<open>lo\<close>.
\<close>

lemma bsearch_loop_spec:
  assumes cmp: "\<forall>i. 0 \<le> i \<and> i < nd \<longrightarrow> partition_bound_cmp key bi i probe pib = Inr (c i)"
    and mono: "\<forall>i j. 0 \<le> i \<and> i < j \<and> j < nd \<and> c j \<le> 0 \<longrightarrow> c i < 0"
    and bounds: "-1 \<le> lo" "lo \<le> hi" "hi < nd"
    and below: "\<forall>i. 0 \<le> i \<and> i \<le> lo \<longrightarrow> c i \<le> 0"
    and above: "\<forall>i. hi < i \<and> i < nd \<longrightarrow> 0 < c i"
    and eq: "0 \<le> lo \<longrightarrow> (is_equal \<longleftrightarrow> c lo = 0)"
  shows "\<exists>r e. partition_bound_bsearch_loop key bi probe pib lo hi is_equal = Inr (r, e)
           \<and> lo \<le> r \<and> r \<le> hi
           \<and> (\<forall>i. 0 \<le> i \<and> i \<le> r \<longrightarrow> c i \<le> 0)
           \<and> (\<forall>i. r < i \<and> i < nd \<longrightarrow> 0 < c i)
           \<and> (0 \<le> r \<longrightarrow> (e \<longleftrightarrow> c r = 0))"
  using bounds below above eq
proof (induction "nat (hi - lo)" arbitrary: lo hi is_equal rule: less_induct)
  case less
  show ?case
  proof (cases "lo < hi")
    case False
    with less.prems have "lo = hi" by simp
    then show ?thesis
      using less.prems by (subst partition_bound_bsearch_loop.simps) simp
  next
    case True
    define mid where "mid = (lo + hi + 1) div 2"
    have mid: "lo < mid" "mid \<le> hi" "0 \<le> mid" "mid < nd"
      using True less.prems(1,3) by (auto simp: mid_def)
    have cm: "partition_bound_cmp key bi mid probe pib = Inr (c mid)"
      using cmp mid by simp
    have unf: "partition_bound_bsearch_loop key bi probe pib lo hi is_equal =
        (if c mid \<le> 0 then
           (if c mid = 0 then Inr (mid, True)
            else partition_bound_bsearch_loop key bi probe pib mid hi False)
         else partition_bound_bsearch_loop key bi probe pib lo (mid - 1) is_equal)"
      using True cm by (subst partition_bound_bsearch_loop.simps) (simp add: mid_def Let_def)
    consider (eq) "c mid = 0" | (lt) "c mid < 0" | (gt) "0 < c mid" by linarith
    then show ?thesis
    proof cases
      case eq
      have b: "\<forall>i. 0 \<le> i \<and> i \<le> mid \<longrightarrow> c i \<le> 0"
      proof (intro allI impI)
        fix i assume "0 \<le> i \<and> i \<le> mid"
        then show "c i \<le> 0"
          using mono [rule_format, of i mid] mid eq by (cases "i = mid") auto
      qed
      have a: "\<forall>i. mid < i \<and> i < nd \<longrightarrow> 0 < c i"
      proof (intro allI impI)
        fix i assume "mid < i \<and> i < nd"
        then show "0 < c i"
          using mono [rule_format, of mid i] mid eq by force
      qed
      show ?thesis using unf eq mid a b by (intro exI [of _ mid] exI [of _ True]) simp
    next
      case lt
      have b: "\<forall>i. 0 \<le> i \<and> i \<le> mid \<longrightarrow> c i \<le> 0"
      proof (intro allI impI)
        fix i assume "0 \<le> i \<and> i \<le> mid"
        then show "c i \<le> 0"
          using mono [rule_format, of i mid] mid lt by (cases "i = mid") auto
      qed
      have "\<exists>r e. partition_bound_bsearch_loop key bi probe pib mid hi False = Inr (r, e)
           \<and> mid \<le> r \<and> r \<le> hi
           \<and> (\<forall>i. 0 \<le> i \<and> i \<le> r \<longrightarrow> c i \<le> 0)
           \<and> (\<forall>i. r < i \<and> i < nd \<longrightarrow> 0 < c i)
           \<and> (0 \<le> r \<longrightarrow> (e \<longleftrightarrow> c r = 0))"
        using mid less.prems b lt by (intro less.hyps) auto
      then show ?thesis using unf lt mid by auto
    next
      case gt
      have a: "\<forall>i. mid - 1 < i \<and> i < nd \<longrightarrow> 0 < c i"
      proof (intro allI impI)
        fix i assume "mid - 1 < i \<and> i < nd"
        then show "0 < c i"
          using mono [rule_format, of mid i] mid gt by (cases "i = mid") force+
      qed
      have "\<exists>r e. partition_bound_bsearch_loop key bi probe pib lo (mid - 1) is_equal = Inr (r, e)
           \<and> lo \<le> r \<and> r \<le> mid - 1
           \<and> (\<forall>i. 0 \<le> i \<and> i \<le> r \<longrightarrow> c i \<le> 0)
           \<and> (\<forall>i. r < i \<and> i < nd \<longrightarrow> 0 < c i)
           \<and> (0 \<le> r \<longrightarrow> (e \<longleftrightarrow> c r = 0))"
        using mid less.prems a by (intro less.hyps) auto
      then show ?thesis using unf gt mid by auto
    qed
  qed
qed

text \<open>
  Claim C3. Let the comparisons of the stored boundaries with the probe succeed, with
  values \<open>c i\<close>, and let the collection be strictly ascending as the probe sees it: a
  boundary below one that is less than or equal to the probe is less than the probe. Then
  \<open>partition_bound_bsearch\<close> returns an offset \<open>r\<close> from -1 to \<open>ndatums - 1\<close>; \<open>r\<close> is -1
  exactly when every boundary is greater than the probe; otherwise the boundary at \<open>r\<close> is
  less than or equal to the probe and every later one is greater; \<open>r\<close> is the last offset
  exactly when no boundary is greater than the probe; and when \<open>r\<close> is an offset,
  \<open>*is_equal\<close> is set exactly when the boundary at \<open>r\<close> compares equal to the probe.
\<close>

theorem partition_bound_bsearch_correct:
  assumes nd: "0 \<le> ndatums bi"
    and cmp: "\<forall>i. 0 \<le> i \<and> i < ndatums bi \<longrightarrow>
                partition_bound_cmp key bi i probe pib = Inr (c i)"
    and mono: "\<forall>i j. 0 \<le> i \<and> i < j \<and> j < ndatums bi \<and> c j \<le> 0 \<longrightarrow> c i < 0"
  shows "\<exists>r e. partition_bound_bsearch key bi probe pib is_equal = Inr (r, e)
           \<and> -1 \<le> r \<and> r < ndatums bi
           \<and> (r = -1 \<longleftrightarrow> (\<forall>i. 0 \<le> i \<and> i < ndatums bi \<longrightarrow> 0 < c i))
           \<and> (0 \<le> r \<longrightarrow> c r \<le> 0 \<and> (\<forall>i. r < i \<and> i < ndatums bi \<longrightarrow> 0 < c i))
           \<and> (r = ndatums bi - 1 \<longleftrightarrow> (\<forall>i. 0 \<le> i \<and> i < ndatums bi \<longrightarrow> c i \<le> 0))
           \<and> (0 \<le> r \<longrightarrow> (e \<longleftrightarrow> c r = 0))"
proof -
  obtain r e where re:
    "partition_bound_bsearch_loop key bi probe pib (-1) (ndatums bi - 1) is_equal = Inr (r, e)"
    "-1 \<le> r" "r \<le> ndatums bi - 1"
    "\<forall>i. 0 \<le> i \<and> i \<le> r \<longrightarrow> c i \<le> 0"
    "\<forall>i. r < i \<and> i < ndatums bi \<longrightarrow> 0 < c i"
    "0 \<le> r \<longrightarrow> (e \<longleftrightarrow> c r = 0)"
    using bsearch_loop_spec [OF cmp mono, of "-1" "ndatums bi - 1" is_equal] nd by auto
  have first: "r = -1 \<longleftrightarrow> (\<forall>i. 0 \<le> i \<and> i < ndatums bi \<longrightarrow> 0 < c i)"
  proof
    assume "r = -1"
    with re(5) show "\<forall>i. 0 \<le> i \<and> i < ndatums bi \<longrightarrow> 0 < c i" by auto
  next
    assume all: "\<forall>i. 0 \<le> i \<and> i < ndatums bi \<longrightarrow> 0 < c i"
    show "r = -1"
    proof (rule ccontr)
      assume "r \<noteq> -1"
      with re(2,3) have "0 \<le> r" "r < ndatums bi" by auto
      with all re(4) show False by force
    qed
  qed
  have last: "r = ndatums bi - 1 \<longleftrightarrow> (\<forall>i. 0 \<le> i \<and> i < ndatums bi \<longrightarrow> c i \<le> 0)"
  proof
    assume "r = ndatums bi - 1"
    with re(4) show "\<forall>i. 0 \<le> i \<and> i < ndatums bi \<longrightarrow> c i \<le> 0" by auto
  next
    assume all: "\<forall>i. 0 \<le> i \<and> i < ndatums bi \<longrightarrow> c i \<le> 0"
    show "r = ndatums bi - 1"
    proof (rule ccontr)
      assume "r \<noteq> ndatums bi - 1"
      with re(2,3) have "0 \<le> r + 1" "r + 1 < ndatums bi" "r < r + 1" by auto
      with all re(5) show False by force
    qed
  qed
  show ?thesis
    unfolding partition_bound_bsearch_def
    using re first last by auto
qed

theorem partition_bound_bsearch_correct_witness:
  "partition_bound_bsearch (range_key 1) two_range_bounds (Probe_Datums [20]) False False
     = Inr (1, True)"
proof -
  define c :: "int \<Rightarrow> int" where "c = (\<lambda>i. if i = 0 then -1 else if i = 1 then 0 else 1)"
  have nd: "0 \<le> ndatums two_range_bounds"
    by (simp add: two_range_bounds_def)
  have c0: "partition_bound_cmp (range_key 1) two_range_bounds 0 (Probe_Datums [20]) False = Inr (-1)"
    by code_simp
  have c1: "partition_bound_cmp (range_key 1) two_range_bounds 1 (Probe_Datums [20]) False = Inr 0"
    by code_simp
  have c2: "partition_bound_cmp (range_key 1) two_range_bounds 2 (Probe_Datums [20]) False = Inr 1"
    by code_simp
  have three: "i = 0 \<or> i = 1 \<or> i = 2" if "0 \<le> i" "i < ndatums two_range_bounds" for i :: int
    using that by (auto simp: two_range_bounds_def)
  have cmp: "\<forall>i. 0 \<le> i \<and> i < ndatums two_range_bounds \<longrightarrow>
      partition_bound_cmp (range_key 1) two_range_bounds i (Probe_Datums [20]) False = Inr (c i)"
    using three c0 c1 c2 by (auto simp: c_def)
  have mono: "\<forall>i j. 0 \<le> i \<and> i < j \<and> j < ndatums two_range_bounds \<and> c j \<le> 0 \<longrightarrow> c i < 0"
    by (auto simp: c_def two_range_bounds_def)
  obtain r e where re:
    "partition_bound_bsearch (range_key 1) two_range_bounds (Probe_Datums [20]) False False
       = Inr (r, e)"
    "-1 \<le> r" "r < ndatums two_range_bounds"
    "r = -1 \<longleftrightarrow> (\<forall>i. 0 \<le> i \<and> i < ndatums two_range_bounds \<longrightarrow> 0 < c i)"
    "0 \<le> r \<longrightarrow> c r \<le> 0 \<and> (\<forall>i. r < i \<and> i < ndatums two_range_bounds \<longrightarrow> 0 < c i)"
    "0 \<le> r \<longrightarrow> (e \<longleftrightarrow> c r = 0)"
    using partition_bound_bsearch_correct [OF nd cmp mono, of False] by blast
  have "r \<noteq> -1"
    using re(4) by (auto simp: c_def two_range_bounds_def intro: exI [of _ 0])
  moreover have "r \<noteq> 0"
    using re(5) by (auto simp: c_def two_range_bounds_def dest: spec [of _ 1])
  moreover have "r \<noteq> 2"
    using re(5) by (auto simp: c_def)
  ultimately have "r = 1"
    using re(2,3) by (auto simp: two_range_bounds_def)
  with re(1,6) show ?thesis by (simp add: c_def)
qed

section \<open>Properties of the canonicalizer: merging of range markers\<close>

text \<open>
  Claim C2, as stated, fails. For the partitions [10, 20) and [20, 30) the upper edge of the
  first and the lower edge of the second both carry the value 20; the comparator orders
  the upper edge strictly before the lower edge, and still the merging step keeps the
  upper edge only: the canonical boundary sequence has the three entries 10, 20, 30.
\<close>

theorem range_merge_counterexample:
  "range_specs_loop (range_key 1) [range_spec 10 20, range_spec 20 30] 0 []
     = Inr [range_marker 0 10 True, range_marker 0 20 False,
            range_marker 1 20 True, range_marker 1 30 False]
   \<and> qsort_partition_rbound_cmp (range_key 1) (range_marker 0 20 False) (range_marker 1 20 True)
     = -1
   \<and> distinct_rbounds (range_key 1)
       (qsort_arg (qsort_partition_rbound_cmp (range_key 1))
          [range_marker 0 10 True, range_marker 0 20 False,
           range_marker 1 20 True, range_marker 1 30 False])
     = [range_marker 0 10 True, range_marker 0 20 False, range_marker 1 30 False]"
  by code_simp

text \<open>The inner loop finds a difference exactly when some column from \<open>j\<close> on shows one.\<close>

lemma is_distinct_loop_iff:
  "is_distinct_loop key cur (Some p) j \<longleftrightarrow>
     (\<exists>c. j \<le> c \<and> c < partnatts key \<and>
        (rb_content cur ! c \<noteq> RANGE_DATUM_FINITE \<or> rb_content p ! c \<noteq> RANGE_DATUM_FINITE \<or>
         partsupfunc key c (rb_datums cur ! c) (rb_datums p ! c) \<noteq> 0))"
proof (induction "partnatts key - j" arbitrary: j)
  case 0
  then show ?case by (subst is_distinct_loop.simps) simp
next
  case (Suc n)
  then have j: "j < partnatts key" by simp
  have ih: "is_distinct_loop key cur (Some p) (Suc j) \<longleftrightarrow>
     (\<exists>c. Suc j \<le> c \<and> c < partnatts key \<and>
        (rb_content cur ! c \<noteq> RANGE_DATUM_FINITE \<or> rb_content p ! c \<noteq> RANGE_DATUM_FINITE \<or>
         partsupfunc key c (rb_datums cur ! c) (rb_datums p ! c) \<noteq> 0))"
    using Suc.hyps(2) by (intro Suc.hyps(1)) simp
  show ?case
  proof (cases "rb_content cur ! j \<noteq> RANGE_DATUM_FINITE \<or> rb_content p ! j \<noteq> RANGE_DATUM_FINITE \<or>
         partsupfunc key j (rb_datums cur ! j) (rb_datums p ! j) \<noteq> 0")
    case True
    then have "is_distinct_loop key cur (Some p) j"
      using j by (subst is_distinct_loop.simps) auto
    with True j show ?thesis by blast
  next
    case False
    then have "is_distinct_loop key cur (Some p) j = is_distinct_loop key cur (Some p) (Suc j)"
      using j by (subst is_distinct_loop.simps) auto
    moreover have "(\<exists>c. j \<le> c \<and> c < partnatts key \<and>
        (rb_content cur ! c \<noteq> RANGE_DATUM_FINITE \<or> rb_content p ! c \<noteq> RANGE_DATUM_FINITE \<or>
         partsupfunc key c (rb_datums cur ! c) (rb_datums p ! c) \<noteq> 0))
       \<longleftrightarrow> (\<exists>c. Suc j \<le> c \<and> c < partnatts key \<and>
        (rb_content cur ! c \<noteq> RANGE_DATUM_FINITE \<or> rb_content p ! c \<noteq> RANGE_DATUM_FINITE \<or>
         partsupfunc key c (rb_datums cur ! c) (rb_datums p ! c) \<noteq> 0))"
      using False by (metis Suc_leD Suc_leI le_neq_implies_less)
    ultimately show ?thesis using ih by simp
  qed
qed

lemma distinct_indexes_loop_nth:
  "i < length xs \<Longrightarrow>
     distinct_indexes_loop key xs prev ! i
       = is_distinct_loop key (xs ! i) (if i = 0 then prev else Some (xs ! (i - 1))) 0"
proof (induction xs arbitrary: i prev)
  case Nil
  then show ?case by simp
next
  case (Cons x xs)
  show ?case
  proof (cases i)
    case 0
    then show ?thesis by simp
  next
    case (Suc k)
    with Cons.prems have "k < length xs" by simp
    from Cons.IH [OF this, of "Some x"] Suc show ?thesis
      by (cases k) simp_all
  qed
qed

lemma length_distinct_indexes_loop [simp]:
  "length (distinct_indexes_loop key xs prev) = length xs"
  by (induction xs arbitrary: prev) simp_all

section \<open>Properties of the dispatch tree builder\<close>

text \<open>The inner loop in closed form.\<close>

lemma dispatch_indexes_loop_eq:
  "dispatch_indexes_loop cat os k offset m leafs idx =
     (idx @ dispatch_entries cat os k (offset + m),
      k + int (length (filter (is_leaf_oid cat) os)),
      m + int (length (filter (\<lambda>oid. \<not> is_leaf_oid cat oid) os)),
      leafs @ filter (is_leaf_oid cat) os)"
proof (induction os arbitrary: k m leafs idx)
  case Nil
  then show ?case by simp
next
  case (Cons oid os)
  show ?case
  proof (cases "is_leaf_oid cat oid")
    case True
    then show ?thesis
      using Cons.IH [of "k + 1" m "leafs @ [oid]" "idx @ [k]"]
      by (simp add: is_leaf_oid_def)
  next
    case False
    then show ?thesis
      using Cons.IH [of k "m + 1" leafs "idx @ [- (1 + offset + m)]"]
      by (simp add: is_leaf_oid_def add.assoc)
  qed
qed

lemma length_dispatch_entries [simp]: "length (dispatch_entries cat os k n) = length os"
  by (induction os arbitrary: k n) simp_all

lemma dispatch_entries_nth:
  assumes "j < length os"
  shows "dispatch_entries cat os k n ! j =
           (if is_leaf_oid cat (os ! j)
            then k + int (length (filter (is_leaf_oid cat) (take j os)))
            else - (1 + n + int (length (filter (\<lambda>oid. \<not> is_leaf_oid cat oid) (take j os)))))"
  using assms
proof (induction os arbitrary: j k n)
  case Nil
  then show ?case by simp
next
  case (Cons oid os)
  show ?case
  proof (cases j)
    case 0
    then show ?thesis by simp
  next
    case (Suc i)
    with Cons.prems have i: "i < length os" by simp
    show ?thesis
      using Cons.IH [OF i] Suc by (cases "is_leaf_oid cat oid") simp_all
  qed
qed

lemma dispatch_entries_leaves:
  "filter (\<lambda>e. 0 \<le> e) (dispatch_entries cat os k n)
     = map (\<lambda>i. k + int i) [0..<length (filter (is_leaf_oid cat) os)]"
  if "0 \<le> k" "0 \<le> n"
  using that
proof (induction os arbitrary: k n)
  case Nil
  then show ?case by simp
next
  case (Cons oid os)
  show ?case
  proof (cases "is_leaf_oid cat oid")
    case True
    have "map (\<lambda>i. k + int i) [0..<Suc (length (filter (is_leaf_oid cat) os))]
        = k # map (\<lambda>i. k + 1 + int i) [0..<length (filter (is_leaf_oid cat) os)]"
      by (simp add: upt_conv_Cons map_Suc_upt [symmetric] del: upt_Suc)
    with True Cons.prems Cons.IH [of "k + 1" n] show ?thesis by simp
  next
    case False
    with Cons.prems Cons.IH [of k "n + 1"] show ?thesis by simp
  qed
qed

text \<open>
  The outer loop in closed form, and the first loop: the partitioned tables found are the
  partitioned ones among the cells visited, in order, and the cells visited are the queue
  followed by the partitions of the tables found.
\<close>

lemma dispatch_build_loop_eq:
  assumes "dispatch_build_loop cat conv ps k offset leafs pd = Inr (pd', leafs')"
  shows "pd' = pd @ dispatch_nodes cat conv ps k offset
         \<and> leafs' = leafs @ filter (is_leaf_oid cat) (concat (map (\<lambda>p. rel_part_oids (fst p)) ps))
         \<and> (\<forall>p \<in> set ps. rd_partdesc (fst p) \<noteq> None)"
  using assms
proof (induction ps arbitrary: k offset leafs pd)
  case Nil
  then show ?case by simp
next
  case (Cons cell rest)
  from Cons.prems obtain d where d: "rd_partdesc (fst cell) = Some d"
    by (cases "rd_partdesc (fst cell)") auto
  have os: "take (nat (nparts d)) (oids d) = rel_part_oids (fst cell)"
    using d by (simp add: rel_part_oids_def)
  from Cons.prems d os
  have rec: "dispatch_build_loop cat conv rest
      (k + int (length (filter (is_leaf_oid cat) (rel_part_oids (fst cell)))))
      (offset + int (length (filter (\<lambda>oid. \<not> is_leaf_oid cat oid) (rel_part_oids (fst cell)))))
      (leafs @ filter (is_leaf_oid cat) (rel_part_oids (fst cell)))
      (pd @ [\<lparr>reldesc = fst cell, pd_key = rd_partkey (fst cell), pd_partdesc = d,
               tupslot = (snd cell \<noteq> None),
               tupmap = (case snd cell of None \<Rightarrow> None | Some parent \<Rightarrow> conv parent (fst cell)),
               pd_indexes = dispatch_entries cat (rel_part_oids (fst cell)) k offset\<rparr>])
      = Inr (pd', leafs')"
    by (simp add: dispatch_indexes_loop_eq)
  from Cons.IH [OF rec] d show ?case by simp
qed

lemma dispatch_nodes_length [simp]: "length (dispatch_nodes cat conv ps k n) = length ps"
  by (induction ps arbitrary: k n) simp_all

lemma dispatch_nodes_nth:
  assumes "i < length ps"
  shows "reldesc (dispatch_nodes cat conv ps k n ! i) = fst (ps ! i)
       \<and> pd_partdesc (dispatch_nodes cat conv ps k n ! i) = the (rd_partdesc (fst (ps ! i)))
       \<and> pd_indexes (dispatch_nodes cat conv ps k n ! i) =
           dispatch_entries cat (rel_part_oids (fst (ps ! i)))
             (k + int (length (filter (is_leaf_oid cat)
                     (concat (map (\<lambda>p. rel_part_oids (fst p)) (take i ps))))))
             (n + int (length (filter (\<lambda>oid. \<not> is_leaf_oid cat oid)
                     (concat (map (\<lambda>p. rel_part_oids (fst p)) (take i ps))))))"
  using assms
proof (induction ps arbitrary: i k n)
  case Nil
  then show ?case by simp
next
  case (Cons cell rest)
  show ?case
  proof (cases i)
    case 0
    then show ?thesis by simp
  next
    case (Suc j)
    with Cons.prems have j: "j < length rest" by simp
    show ?thesis
      using Cons.IH [OF j] Suc by (simp add: add.assoc)
  qed
qed

lemma dispatch_collect_spec:
  assumes "dispatch_collect cat queue parted = Some res"
  shows "\<exists>N. res = parted @ N \<and>
           N = map (\<lambda>c. (cat (fst c), Some (snd c)))
                 (filter (\<lambda>c. rd_partdesc (cat (fst c)) \<noteq> None)
                    (queue @ concat (map (\<lambda>p. map (\<lambda>oid. (oid, fst p)) (rel_part_oids (fst p))) N)))"
proof (rule dispatch_collect.raw_induct [where P = "\<lambda>cat queue parted res.
         \<exists>N. res = parted @ N \<and>
           N = map (\<lambda>c. (cat (fst c), Some (snd c)))
                 (filter (\<lambda>c. rd_partdesc (cat (fst c)) \<noteq> None)
                    (queue @ concat (map (\<lambda>p. map (\<lambda>oid. (oid, fst p)) (rel_part_oids (fst p))) N)))",
       OF _ assms], goal_cases)
  case (1 f cat queue parted res)
  show ?case
  proof (cases queue)
    case Nil
    with 1(2) have "res = parted" by simp
    then show ?thesis using Nil by (intro exI [of _ "[]"]) simp
  next
    case (Cons cell rest)
    show ?thesis
    proof (cases "rd_partdesc (cat (fst cell))")
      case None
      with 1(2) Cons have "f cat rest parted = Some res" by simp
      from 1(1) [OF this] obtain N where N: "res = parted @ N"
        "N = map (\<lambda>c. (cat (fst c), Some (snd c)))
                 (filter (\<lambda>c. rd_partdesc (cat (fst c)) \<noteq> None)
                    (rest @ concat (map (\<lambda>p. map (\<lambda>oid. (oid, fst p)) (rel_part_oids (fst p))) N)))"
        by blast
      show ?thesis
        using N None Cons by (intro exI [of _ N]) simp
    next
      case (Some d)
      with 1(2) Cons have "f cat
          (rest @ APPEND_REL_PARTITION_OIDS (cat (fst cell)) d)
          (parted @ [(cat (fst cell), Some (snd cell))]) = Some res" by simp
      from 1(1) [OF this] obtain N where N: "res = (parted @ [(cat (fst cell), Some (snd cell))]) @ N"
        "N = map (\<lambda>c. (cat (fst c), Some (snd c)))
                 (filter (\<lambda>c. rd_partdesc (cat (fst c)) \<noteq> None)
                    ((rest @ APPEND_REL_PARTITION_OIDS (cat (fst cell)) d)
                      @ concat (map (\<lambda>p. map (\<lambda>oid. (oid, fst p)) (rel_part_oids (fst p))) N)))"
        by blast
      have ch: "APPEND_REL_PARTITION_OIDS (cat (fst cell)) d
          = map (\<lambda>oid. (oid, cat (fst cell))) (rel_part_oids (cat (fst cell)))"
        using Some by (simp add: APPEND_REL_PARTITION_OIDS_def rel_part_oids_def)
      show ?thesis
        using N(1) Some Cons ch
        by (intro exI [of _ "(cat (fst cell), Some (snd cell)) # N"])
           (use N(2) in simp)
    qed
  qed
qed


lemma filter_nth_count:
  assumes "q < length xs" "P (xs ! q)"
  shows "length (filter P (take q xs)) < length (filter P xs)
         \<and> filter P xs ! length (filter P (take q xs)) = xs ! q"
proof -
  have "xs = take q xs @ xs ! q # drop (Suc q) xs"
    using assms(1) by (simp add: id_take_nth_drop [symmetric])
  then have "filter P xs = filter P (take q xs) @ xs ! q # filter P (drop (Suc q) xs)"
    using assms(2) by (metis filter.simps(2) filter_append)
  then show ?thesis by (simp add: nth_append)
qed

lemma concat_map_nth:
  assumes "i < length ps" "j < length (f (ps ! i))"
  shows "length (concat (map f (take i ps))) + j < length (concat (map f ps))
       \<and> concat (map f ps) ! (length (concat (map f (take i ps))) + j) = f (ps ! i) ! j
       \<and> take (length (concat (map f (take i ps))) + j) (concat (map f ps))
           = concat (map f (take i ps)) @ take j (f (ps ! i))"
proof -
  have "ps = take i ps @ ps ! i # drop (Suc i) ps"
    using assms(1) by (simp add: id_take_nth_drop [symmetric])
  then have "concat (map f ps)
      = concat (map f (take i ps)) @ f (ps ! i) @ concat (map f (drop (Suc i) ps))"
    by (metis concat.simps(2) concat_append list.simps(9) map_append)
  then show ?thesis using assms(2) by (simp add: nth_append)
qed

lemma map_add_upt_append:
  "map (\<lambda>i. k + int i) [0..<a + b]
     = map (\<lambda>i. k + int i) [0..<a] @ map (\<lambda>i. k + int a + int i) [0..<b]"
  by (induction b) (simp_all add: add.assoc)

lemma dispatch_nodes_leaves:
  assumes "0 \<le> k" "0 \<le> n"
  shows "concat (map (\<lambda>node. filter (\<lambda>e. 0 \<le> e) (pd_indexes node)) (dispatch_nodes cat conv ps k n))
     = map (\<lambda>i. k + int i)
         [0..<length (filter (is_leaf_oid cat) (concat (map (\<lambda>p. rel_part_oids (fst p)) ps)))]"
  using assms
proof (induction ps arbitrary: k n)
  case Nil
  then show ?case by simp
next
  case (Cons cell rest)
  have ih: "concat (map (\<lambda>node. filter (\<lambda>e. 0 \<le> e) (pd_indexes node))
      (dispatch_nodes cat conv rest
         (k + int (length (filter (is_leaf_oid cat) (rel_part_oids (fst cell)))))
         (n + int (length (filter (\<lambda>oid. \<not> is_leaf_oid cat oid) (rel_part_oids (fst cell)))))))
     = map (\<lambda>i. k + int (length (filter (is_leaf_oid cat) (rel_part_oids (fst cell)))) + int i)
         [0..<length (filter (is_leaf_oid cat) (concat (map (\<lambda>p. rel_part_oids (fst p)) rest)))]"
    using Cons.prems by (intro Cons.IH) auto
  show ?case
    using Cons.prems ih
    by (simp add: dispatch_entries_leaves map_add_upt_append)
qed

text \<open>
  Claim C8. Let \<open>RelationGetPartitionDispatchInfo\<close> return the node array \<open>pd\<close> and the leaf
  list, on a catalog in which a relation has a partition descriptor exactly when its
  \<open>relkind\<close> is that of a partitioned table. Then the non-negative entries of the nodes,
  read node by node, are 0, 1, 2, ... up to the number of leaves; every node has one entry
  per partition; an entry is non-negative exactly when \<open>get_rel_relkind\<close> says the
  partition is not a partitioned table, and then it is the position of the partition's OID
  in the leaf list; otherwise the entry is negative, and the node at the position given by
  its negation is the node of that partition: its relation is the one the catalog has for
  the OID, with that relation's partition descriptor.
\<close>

theorem dispatch_indexes_correct:
  assumes res: "RelationGetPartitionDispatchInfo cat conv rel
                  = Some (Inr (pd, num_parted, leaf_part_oids))"
    and kinds: "\<forall>oid. rd_partdesc (cat oid) \<noteq> None
                  \<longleftrightarrow> rd_relkind (cat oid) = RELKIND_PARTITIONED_TABLE"
  shows "concat (map (\<lambda>node. filter (\<lambda>e. 0 \<le> e) (pd_indexes node)) pd)
           = map int [0..<length leaf_part_oids]
       \<and> (\<forall>i<length pd.
            length (pd_indexes (pd ! i)) = length (dispatch_node_oids (pd ! i)) \<and>
            (\<forall>j<length (dispatch_node_oids (pd ! i)).
               (0 \<le> pd_indexes (pd ! i) ! j
                  \<longleftrightarrow> rd_relkind (cat (dispatch_node_oids (pd ! i) ! j))
                        \<noteq> RELKIND_PARTITIONED_TABLE) \<and>
               (0 \<le> pd_indexes (pd ! i) ! j \<longrightarrow>
                  nat (pd_indexes (pd ! i) ! j) < length leaf_part_oids \<and>
                  leaf_part_oids ! nat (pd_indexes (pd ! i) ! j) = dispatch_node_oids (pd ! i) ! j) \<and>
               (pd_indexes (pd ! i) ! j < 0 \<longrightarrow>
                  nat (- (pd_indexes (pd ! i) ! j)) < length pd \<and>
                  reldesc (pd ! nat (- (pd_indexes (pd ! i) ! j)))
                    = cat (dispatch_node_oids (pd ! i) ! j) \<and>
                  rd_partdesc (cat (dispatch_node_oids (pd ! i) ! j))
                    = Some (pd_partdesc (pd ! nat (- (pd_indexes (pd ! i) ! j)))))))"
proof -
  let ?os = "\<lambda>p :: RelationData \<times> RelationData option. rel_part_oids (fst p)"
  let ?ch = "\<lambda>p :: RelationData \<times> RelationData option.
               map (\<lambda>oid. (oid, fst p)) (rel_part_oids (fst p))"
  let ?pc = "\<lambda>c :: Oid \<times> RelationData. rd_partdesc (cat (fst c)) \<noteq> None"
  let ?leaf = "is_leaf_oid cat"
  let ?np = "\<lambda>oid. \<not> is_leaf_oid cat oid"
  from res obtain d where d: "rd_partdesc rel = Some d"
    by (cases "rd_partdesc rel") (auto simp: RelationGetPartitionDispatchInfo_def)
  from res d obtain P where
    coll: "dispatch_collect cat (APPEND_REL_PARTITION_OIDS rel d) [(rel, None)] = Some P"
    and build: "dispatch_build_loop cat conv P 0 0 [] [] = Inr (pd, leaf_part_oids)"
    by (auto simp: RelationGetPartitionDispatchInfo_def split: option.splits sum.splits)
  from dispatch_collect_spec [OF coll] obtain N where
    P: "P = (rel, None) # N" and
    N: "N = map (\<lambda>c. (cat (fst c), Some (snd c)))
              (filter ?pc (APPEND_REL_PARTITION_OIDS rel d @ concat (map ?ch N)))"
    by auto
  have root: "APPEND_REL_PARTITION_OIDS rel d = ?ch (rel, None)"
    using d by (simp add: APPEND_REL_PARTITION_OIDS_def rel_part_oids_def)
  define A where "A = concat (map ?ch P)"
  have A: "A = APPEND_REL_PARTITION_OIDS rel d @ concat (map ?ch N)"
    by (simp add: A_def P root)
  have NA: "N = map (\<lambda>c. (cat (fst c), Some (snd c))) (filter ?pc A)"
    using N A by simp
  have fstA: "map fst A = concat (map ?os P)"
    by (simp add: A_def map_concat o_def)
  from dispatch_build_loop_eq [OF build] have
    pd: "pd = dispatch_nodes cat conv P 0 0" and
    leafs: "leaf_part_oids = filter ?leaf (concat (map ?os P))" and
    parted: "\<forall>p \<in> set P. rd_partdesc (fst p) \<noteq> None"
    by auto
  have pc_leaf: "?pc c \<longleftrightarrow> \<not> ?leaf (fst c)" for c
    using kinds by (simp add: is_leaf_oid_def)
  have first: "concat (map (\<lambda>node. filter (\<lambda>e. 0 \<le> e) (pd_indexes node)) pd)
           = map int [0..<length leaf_part_oids]"
    unfolding pd leafs by (subst dispatch_nodes_leaves) simp_all
  have second: "length (pd_indexes (pd ! i)) = length (dispatch_node_oids (pd ! i)) \<and>
            (\<forall>j<length (dispatch_node_oids (pd ! i)).
               (0 \<le> pd_indexes (pd ! i) ! j
                  \<longleftrightarrow> rd_relkind (cat (dispatch_node_oids (pd ! i) ! j))
                        \<noteq> RELKIND_PARTITIONED_TABLE) \<and>
               (0 \<le> pd_indexes (pd ! i) ! j \<longrightarrow>
                  nat (pd_indexes (pd ! i) ! j) < length leaf_part_oids \<and>
                  leaf_part_oids ! nat (pd_indexes (pd ! i) ! j) = dispatch_node_oids (pd ! i) ! j) \<and>
               (pd_indexes (pd ! i) ! j < 0 \<longrightarrow>
                  nat (- (pd_indexes (pd ! i) ! j)) < length pd \<and>
                  reldesc (pd ! nat (- (pd_indexes (pd ! i) ! j)))
                    = cat (dispatch_node_oids (pd ! i) ! j) \<and>
                  rd_partdesc (cat (dispatch_node_oids (pd ! i) ! j))
                    = Some (pd_partdesc (pd ! nat (- (pd_indexes (pd ! i) ! j))))))"
    if i: "i < length pd" for i
  proof -
    from i have iP: "i < length P" by (simp add: pd)
    note node = dispatch_nodes_nth [OF iP, of cat conv 0 0]
    from parted iP have "rd_partdesc (fst (P ! i)) \<noteq> None" by auto
    then have oids_i: "dispatch_node_oids (pd ! i) = ?os (P ! i)"
      using node by (auto simp: dispatch_node_oids_def pd rel_part_oids_def)
    define K where "K = concat (map ?os (take i P))"
    have idx: "pd_indexes (pd ! i) = dispatch_entries cat (?os (P ! i))
        (int (length (filter ?leaf K))) (int (length (filter ?np K)))"
      using node by (simp add: pd K_def)
    have len: "length (pd_indexes (pd ! i)) = length (dispatch_node_oids (pd ! i))"
      by (simp add: idx oids_i)
    have each: "(0 \<le> pd_indexes (pd ! i) ! j
                  \<longleftrightarrow> rd_relkind (cat (dispatch_node_oids (pd ! i) ! j))
                        \<noteq> RELKIND_PARTITIONED_TABLE) \<and>
               (0 \<le> pd_indexes (pd ! i) ! j \<longrightarrow>
                  nat (pd_indexes (pd ! i) ! j) < length leaf_part_oids \<and>
                  leaf_part_oids ! nat (pd_indexes (pd ! i) ! j) = dispatch_node_oids (pd ! i) ! j) \<and>
               (pd_indexes (pd ! i) ! j < 0 \<longrightarrow>
                  nat (- (pd_indexes (pd ! i) ! j)) < length pd \<and>
                  reldesc (pd ! nat (- (pd_indexes (pd ! i) ! j)))
                    = cat (dispatch_node_oids (pd ! i) ! j) \<and>
                  rd_partdesc (cat (dispatch_node_oids (pd ! i) ! j))
                    = Some (pd_partdesc (pd ! nat (- (pd_indexes (pd ! i) ! j)))))"
      if j: "j < length (dispatch_node_oids (pd ! i))" for j
    proof -
      from j have jo: "j < length (?os (P ! i))" by (simp add: oids_i)
      define child where "child = ?os (P ! i) ! j"
      define q where "q = length K + j"
      from concat_map_nth [where f = ?os, OF iP jo] have
        q: "q < length (concat (map ?os P))" and
        qn: "concat (map ?os P) ! q = child" and
        qt: "take q (concat (map ?os P)) = K @ take j (?os (P ! i))"
        by (simp_all add: q_def K_def child_def)
      have e: "pd_indexes (pd ! i) ! j =
          (if ?leaf child then int (length (filter ?leaf (take q (concat (map ?os P)))))
           else - (1 + int (length (filter ?np (take q (concat (map ?os P)))))))"
        using dispatch_entries_nth [OF jo, of cat] by (simp add: idx qt child_def)
      show ?thesis
      proof (cases "?leaf child")
        case True
        from filter_nth_count [of q "concat (map ?os P)" ?leaf] q qn True
        have "length (filter ?leaf (take q (concat (map ?os P)))) < length leaf_part_oids"
          "leaf_part_oids ! length (filter ?leaf (take q (concat (map ?os P)))) = child"
          by (simp_all add: leafs)
        moreover have co: "dispatch_node_oids (pd ! i) ! j = child"
          by (simp add: oids_i child_def)
        moreover have "rd_relkind (cat child) \<noteq> RELKIND_PARTITIONED_TABLE"
          using True by (simp add: is_leaf_oid_def)
        ultimately show ?thesis
          using True e by simp
      next
        case False
        define c where "c = length (filter ?np (take q (concat (map ?os P))))"
        have qA: "q < length A" using q fstA by (metis length_map)
        have Aq: "fst (A ! q) = child" using qn fstA qA by (metis nth_map)
        have sndA: "snd (A ! q) = fst (P ! i)"
        proof -
          from concat_map_nth [where f = ?ch and i = i and ps = P and j = j] iP jo
          have "A ! (length (concat (map ?ch (take i P))) + j) = ?ch (P ! i) ! j"
            by (simp add: A_def)
          moreover have "length (concat (map ?ch (take i P))) = length K"
            by (simp add: K_def length_concat o_def)
          ultimately show ?thesis using jo by (simp add: q_def)
        qed
        have pcq: "?pc (A ! q)" using False Aq pc_leaf [of "A ! q"] by simp
        have cnt: "length (filter ?pc (take q A)) = c"
        proof -
          have "filter ?pc (take q A) = filter (\<lambda>c. ?np (fst c)) (take q A)"
            using pc_leaf by simp
          then have "length (filter ?pc (take q A)) = length (filter ?np (map fst (take q A)))"
            by (simp add: filter_map o_def)
          then show ?thesis by (simp add: c_def fstA [symmetric] take_map)
        qed
        from filter_nth_count [of q A ?pc, OF qA pcq] cnt
        have cN: "c < length (filter ?pc A)" and fc: "filter ?pc A ! c = A ! q" by simp_all
        have Nc: "N ! c = (cat child, Some (fst (P ! i)))"
          using cN fc Aq sndA by (subst NA) simp
        have lenN: "c < length N" using cN by (subst NA) simp
        have e': "pd_indexes (pd ! i) ! j = - (1 + int c)"
          using e False by (simp add: c_def)
        have tgt: "nat (- (pd_indexes (pd ! i) ! j)) = Suc c"
          using e' by simp
        have in_range: "Suc c < length P" using lenN P by simp
        have PSc: "P ! Suc c = (cat child, Some (fst (P ! i)))"
          using Nc P by simp
        note tnode = dispatch_nodes_nth [OF in_range, of cat conv 0 0]
        have r1: "reldesc (pd ! Suc c) = cat child"
          using tnode PSc by (simp add: pd)
        have "rd_partdesc (cat child) \<noteq> None"
          using pcq Aq by simp
        then have r2: "rd_partdesc (cat child) = Some (pd_partdesc (pd ! Suc c))"
          using tnode PSc by (auto simp: pd)
        have co: "dispatch_node_oids (pd ! i) ! j = child"
          by (simp add: oids_i child_def)
        have in_pd: "Suc c < length pd"
          using in_range by (simp add: pd)
        have kind: "rd_relkind (cat child) = RELKIND_PARTITIONED_TABLE"
          using False by (simp add: is_leaf_oid_def)
        have neg: "pd_indexes (pd ! i) ! j < 0" "\<not> 0 \<le> pd_indexes (pd ! i) ! j"
          using e' by simp_all
        show ?thesis
          unfolding co tgt using kind neg in_pd r1 r2 by simp
      qed
    qed
    show ?thesis
    proof (rule conjI)
      show "length (pd_indexes (pd ! i)) = length (dispatch_node_oids (pd ! i))"
        by (rule len)
    next
      show "\<forall>j<length (dispatch_node_oids (pd ! i)).
               (0 \<le> pd_indexes (pd ! i) ! j
                  \<longleftrightarrow> rd_relkind (cat (dispatch_node_oids (pd ! i) ! j))
                        \<noteq> RELKIND_PARTITIONED_TABLE) \<and>
               (0 \<le> pd_indexes (pd ! i) ! j \<longrightarrow>
                  nat (pd_indexes (pd ! i) ! j) < length leaf_part_oids \<and>
                  leaf_part_oids ! nat (pd_indexes (pd ! i) ! j) = dispatch_node_oids (pd ! i) ! j) \<and>
               (pd_indexes (pd ! i) ! j < 0 \<longrightarrow>
                  nat (- (pd_indexes (pd ! i) ! j)) < length pd \<and>
                  reldesc (pd ! nat (- (pd_indexes (pd ! i) ! j)))
                    = cat (dispatch_node_oids (pd ! i) ! j) \<and>
                  rd_partdesc (cat (dispatch_node_oids (pd ! i) ! j))
                    = Some (pd_partdesc (pd ! nat (- (pd_indexes (pd ! i) ! j)))))"
        by (intro allI impI) (rule each)
    qed
  qed
  show ?thesis
  proof (rule conjI)
    show "concat (map (\<lambda>node. filter (\<lambda>e. 0 \<le> e) (pd_indexes node)) pd)
           = map int [0..<length leaf_part_oids]"
      by (rule first)
  next
    show "\<forall>i<length pd.
            length (pd_indexes (pd ! i)) = length (dispatch_node_oids (pd ! i)) \<and>
            (\<forall>j<length (dispatch_node_oids (pd ! i)).
               (0 \<le> pd_indexes (pd ! i) ! j
                  \<longleftrightarrow> rd_relkind (cat (dispatch_node_oids (pd ! i) ! j))
                        \<noteq> RELKIND_PARTITIONED_TABLE) \<and>
               (0 \<le> pd_indexes (pd ! i) ! j \<longrightarrow>
                  nat (pd_indexes (pd ! i) ! j) < length leaf_part_oids \<and>
                  leaf_part_oids ! nat (pd_indexes (pd ! i) ! j) = dispatch_node_oids (pd ! i) ! j) \<and>
               (pd_indexes (pd ! i) ! j < 0 \<longrightarrow>
                  nat (- (pd_indexes (pd ! i) ! j)) < length pd \<and>
                  reldesc (pd ! nat (- (pd_indexes (pd ! i) ! j)))
                    = cat (dispatch_node_oids (pd ! i) ! j) \<and>
                  rd_partdesc (cat (dispatch_node_oids (pd ! i) ! j))
                    = Some (pd_partdesc (pd ! nat (- (pd_indexes (pd ! i) ! j))))))"
      by (intro allI impI) (rule second)
  qed
qed

theorem dispatch_indexes_correct_witness:
  "RelationGetPartitionDispatchInfo example_catalog example_conv example_root
     = Some (Inr (example_pd, 2, [201, 203, 101, 102]))
   \<and> concat (map (\<lambda>node. filter (\<lambda>e. 0 \<le> e) (pd_indexes node)) example_pd)
     = map int [0..<length [201, 203, 101, 102 :: Oid]]
   \<and> reldesc (example_pd ! nat (- (pd_indexes (example_pd ! 0) ! 1))) = example_catalog 202"
proof -
  have coll: "dispatch_collect example_catalog
       (APPEND_REL_PARTITION_OIDS example_root null_list_parts) [(example_root, None)]
     = Some [(example_root, None), (example_child, Some example_root)]"
    by (simp add: dispatch_collect.simps APPEND_REL_PARTITION_OIDS_def example_catalog_def
        null_list_parts_def two_range_parts_def example_root_def example_child_def)
  have build: "dispatch_build_loop example_catalog example_conv
       [(example_root, None), (example_child, Some example_root)] 0 0 [] []
     = Inr (example_pd, [201, 203, 101, 102])"
    by (simp add: example_root_def example_child_def example_catalog_def example_conv_def
          example_pd_def null_list_parts_def two_range_parts_def RELKIND_PARTITIONED_TABLE_def)
  have root: "rd_partdesc example_root = Some null_list_parts"
    by (simp add: example_root_def)
  have ev: "RelationGetPartitionDispatchInfo example_catalog example_conv example_root
     = Some (Inr (example_pd, 2, [201, 203, 101, 102]))"
    unfolding RelationGetPartitionDispatchInfo_def root option.case coll build by simp
  have kinds: "\<forall>oid. rd_partdesc (example_catalog oid) \<noteq> None
                  \<longleftrightarrow> rd_relkind (example_catalog oid) = RELKIND_PARTITIONED_TABLE"
    by (simp add: example_catalog_def example_root_def example_child_def
        RELKIND_PARTITIONED_TABLE_def)
  have "reldesc (example_pd ! nat (- (pd_indexes (example_pd ! 0) ! 1))) = example_catalog 202"
    by (simp add: example_pd_def example_catalog_def)
  with dispatch_indexes_correct [OF ev kinds] ev show ?thesis
    by simp
qed

section \<open>Properties of the canonicalizer: the ordinal mapping\<close>

subsection \<open>The range comparator is a total preorder\<close>

text \<open>
  The comparator handed to \<open>qsort_arg\<close> is the column loop started at column 0; started at
  column \<open>i\<close> it either stops there or goes on with column \<open>i + 1\<close>.
\<close>

lemma qsort_partition_rbound_cmp_from:
  "qsort_partition_rbound_cmp key a b = rbound_cmp_from key a b 0"
  by (simp add: qsort_partition_rbound_cmp_def partition_rbound_cmp_def rbound_cmp_from_def)

lemma rbound_cmp_from_step:
  assumes "i < partnatts key"
  shows "rbound_cmp_from key a b i =
           (case col_step key a b i of Some v \<Rightarrow> v | None \<Rightarrow> rbound_cmp_from key a b (Suc i))"
  unfolding rbound_cmp_from_def col_step_def
  using assms
  by (subst rbound_cmp_loop.simps) (simp add: Let_def)

lemma rbound_cmp_from_end:
  assumes "partnatts key \<le> i"
  shows "rbound_cmp_from key a b i =
           (if rb_lower a \<noteq> rb_lower b then (if rb_lower a then 1 else -1) else 0)"
  unfolding rbound_cmp_from_def
  using assms
  by (subst rbound_cmp_loop.simps) simp

lemma cmp_total_preorder_sym0:
  assumes "cmp_total_preorder f"
  shows "f x y = 0 \<longleftrightarrow> f y x = 0"
  using assms unfolding cmp_total_preorder_def
  by (metis less_le not_less)

lemma cmp_total_preorder_flip:
  assumes "cmp_total_preorder f"
  shows "0 < f x y \<longleftrightarrow> f y x < 0" "f x y < 0 \<longleftrightarrow> 0 < f y x"
  using assms unfolding cmp_total_preorder_def by blast+

lemma cmp_total_preorder_trans:
  assumes "cmp_total_preorder f" "f x y \<le> 0" "f y z \<le> 0"
  shows "f x z \<le> 0"
  using assms unfolding cmp_total_preorder_def by blast

lemma cmp_total_preorder_lt_le:
  assumes "cmp_total_preorder f" "f x y < 0" "f y z \<le> 0"
  shows "f x z < 0"
proof (rule ccontr)
  assume "\<not> f x z < 0"
  moreover have "f x z \<le> 0"
    using cmp_total_preorder_trans [OF assms(1), of x y z] assms(2,3) by simp
  ultimately have "f x z = 0" by simp
  then have "f z x \<le> 0"
    using cmp_total_preorder_sym0 [OF assms(1), of x z] by simp
  with assms(3) have "f y x \<le> 0"
    using cmp_total_preorder_trans [OF assms(1), of y z x] by simp
  moreover have "0 < f y x"
    using cmp_total_preorder_flip(2) [OF assms(1), of x y] assms(2) by simp
  ultimately show False by simp
qed

lemma cmp_total_preorder_le_lt:
  assumes "cmp_total_preorder f" "f x y \<le> 0" "f y z < 0"
  shows "f x z < 0"
proof (rule ccontr)
  assume "\<not> f x z < 0"
  moreover have "f x z \<le> 0"
    using cmp_total_preorder_trans [OF assms(1), of x y z] assms(2,3) by simp
  ultimately have "f x z = 0" by simp
  then have "f z x \<le> 0"
    using cmp_total_preorder_sym0 [OF assms(1), of x z] by simp
  with assms(2) have "f z y \<le> 0"
    using cmp_total_preorder_trans [OF assms(1), of z x y] by simp
  moreover have "0 < f z y"
    using cmp_total_preorder_flip(2) [OF assms(1), of y z] assms(3) by simp
  ultimately show False by simp
qed

text \<open>
  Column by column, antisymmetry and transitivity carry over from the support functions to
  the comparator of range markers.
\<close>

lemma cmp_total_preorder_eq_trans:
  assumes "cmp_total_preorder f" "f x y = 0" "f y z = 0"
  shows "f x z = 0"
proof -
  have "f x z \<le> 0"
    using cmp_total_preorder_trans [OF assms(1), of x y z] assms(2,3) by simp
  moreover have "f z y = 0" "f y x = 0"
    using cmp_total_preorder_sym0 [OF assms(1)] assms(2,3) by blast+
  then have "f z x \<le> 0"
    using cmp_total_preorder_trans [OF assms(1), of z y x] by simp
  then have "\<not> f x z < 0"
    using cmp_total_preorder_flip(2) [OF assms(1), of x z] by simp
  ultimately show ?thesis by simp
qed

lemma col_step_antisym:
  assumes pre: "cmp_total_preorder (partsupfunc key i)"
    and rest: "0 < rab \<longleftrightarrow> rba < 0"
  shows "0 < (case col_step key a b i of Some v \<Rightarrow> v | None \<Rightarrow> rab)
         \<longleftrightarrow> (case col_step key b a i of Some v \<Rightarrow> v | None \<Rightarrow> rba) < 0"
proof -
  note f = cmp_total_preorder_flip [OF pre, of "rb_datums a ! i" "rb_datums b ! i"]
    cmp_total_preorder_sym0 [OF pre, of "rb_datums a ! i" "rb_datums b ! i"]
  show ?thesis
    using f rest
    by (cases "rb_content a ! i"; cases "rb_content b ! i") (auto simp: col_step_def)
qed

lemma col_step_trans:
  assumes pre: "cmp_total_preorder (partsupfunc key i)"
    and rest: "rab \<le> 0 \<and> rbc \<le> 0 \<longrightarrow> rac \<le> 0"
    and ab: "(case col_step key a b i of Some v \<Rightarrow> v | None \<Rightarrow> rab) \<le> 0"
    and bc: "(case col_step key b c i of Some v \<Rightarrow> v | None \<Rightarrow> rbc) \<le> 0"
  shows "(case col_step key a c i of Some v \<Rightarrow> v | None \<Rightarrow> rac) \<le> 0"
proof -
  let ?x = "rb_datums a ! i" and ?y = "rb_datums b ! i" and ?z = "rb_datums c ! i"
  let ?f = "partsupfunc key i"
  have F1: "?f ?x ?y \<le> 0 \<Longrightarrow> ?f ?y ?z \<le> 0 \<Longrightarrow> ?f ?x ?z \<le> 0"
    using cmp_total_preorder_trans [OF pre] by blast
  have F2: "?f ?x ?y < 0 \<Longrightarrow> ?f ?y ?z \<le> 0 \<Longrightarrow> ?f ?x ?z < 0"
    using cmp_total_preorder_lt_le [OF pre] by blast
  have F3: "?f ?x ?y \<le> 0 \<Longrightarrow> ?f ?y ?z < 0 \<Longrightarrow> ?f ?x ?z < 0"
    using cmp_total_preorder_le_lt [OF pre] by blast
  have F4: "?f ?x ?y = 0 \<Longrightarrow> ?f ?y ?z = 0 \<Longrightarrow> ?f ?x ?z = 0"
    using cmp_total_preorder_eq_trans [OF pre] by blast
  show ?thesis
  proof (cases "rb_content a ! i = RANGE_DATUM_FINITE \<and> rb_content b ! i = RANGE_DATUM_FINITE
                \<and> rb_content c ! i = RANGE_DATUM_FINITE")
    case True
    consider (lt) "?f ?x ?y < 0" | (eq) "?f ?x ?y = 0" | (gt) "0 < ?f ?x ?y" by linarith
    then show ?thesis
    proof cases
      case lt
      with ab bc True F2 [OF lt] show ?thesis
        by (auto simp: col_step_def split: if_splits)
    next
      case eq
      with ab bc True F3 F4 rest show ?thesis
        by (auto simp: col_step_def split: if_splits)
    next
      case gt
      with ab True show ?thesis by (simp add: col_step_def)
    qed
  next
    case False
    with ab bc show ?thesis
      by (cases "rb_content a ! i"; cases "rb_content b ! i"; cases "rb_content c ! i")
         (auto simp: col_step_def split: if_splits)
  qed
qed

lemma rbound_cmp_from_antisym:
  assumes "\<forall>j<partnatts key. cmp_total_preorder (partsupfunc key j)"
  shows "0 < rbound_cmp_from key a b i \<longleftrightarrow> rbound_cmp_from key b a i < 0"
proof (induction "partnatts key - i" arbitrary: i)
  case 0
  then show ?case by (auto simp: rbound_cmp_from_end)
next
  case (Suc n)
  then have i: "i < partnatts key" by simp
  have ih: "0 < rbound_cmp_from key a b (Suc i) \<longleftrightarrow> rbound_cmp_from key b a (Suc i) < 0"
    using Suc.hyps(2) by (intro Suc.hyps(1)) simp
  show ?case
    unfolding rbound_cmp_from_step [OF i]
    using assms i ih by (intro col_step_antisym) auto
qed

lemma rbound_cmp_from_trans:
  assumes "\<forall>j<partnatts key. cmp_total_preorder (partsupfunc key j)"
    and "rbound_cmp_from key a b i \<le> 0" "rbound_cmp_from key b c i \<le> 0"
  shows "rbound_cmp_from key a c i \<le> 0"
  using assms(2,3)
proof (induction "partnatts key - i" arbitrary: i)
  case 0
  then show ?case by (auto simp: rbound_cmp_from_end split: if_splits)
next
  case (Suc n)
  then have i: "i < partnatts key" by simp
  have ih: "rbound_cmp_from key a b (Suc i) \<le> 0 \<and> rbound_cmp_from key b c (Suc i) \<le> 0
            \<longrightarrow> rbound_cmp_from key a c (Suc i) \<le> 0"
    using Suc.hyps(2) Suc.hyps(1) [of "Suc i"] by simp
  have pre: "cmp_total_preorder (partsupfunc key i)" using assms(1) i by simp
  show ?case
    using col_step_trans [OF pre ih] Suc.prems
    unfolding rbound_cmp_from_step [OF i] by blast
qed

lemma qsort_partition_rbound_cmp_total_preorder:
  assumes "\<forall>j<partnatts key. cmp_total_preorder (partsupfunc key j)"
  shows "cmp_total_preorder (qsort_partition_rbound_cmp key)"
  unfolding cmp_total_preorder_def qsort_partition_rbound_cmp_from
  using rbound_cmp_from_antisym [OF assms] rbound_cmp_from_trans [OF assms]
  by blast


subsection \<open>The sort\<close>

text \<open>
  All that is used of \<open>qsort_arg\<close>: the result is a permutation of the input, and it is
  ascending for a comparator that is a total preorder. An ascending arrangement of elements
  that pairwise compare different is unique.
\<close>

lemma mset_qsort_insert [simp]: "mset (qsort_insert cmp x ys) = add_mset x (mset ys)"
  by (induction ys) simp_all

lemma mset_qsort_loop: "mset (qsort_loop cmp acc xs) = mset acc + mset xs"
  by (induction xs arbitrary: acc) simp_all

lemma mset_qsort_arg [simp]: "mset (qsort_arg cmp xs) = mset xs"
  by (simp add: qsort_arg_def mset_qsort_loop)

lemma set_qsort_arg [simp]: "set (qsort_arg cmp xs) = set xs"
  by (metis mset_qsort_arg set_mset_mset)

lemma length_qsort_arg [simp]: "length (qsort_arg cmp xs) = length xs"
  by (metis mset_qsort_arg size_mset)

lemma set_qsort_insert [simp]: "set (qsort_insert cmp x ys) = insert x (set ys)"
  by (metis mset_qsort_insert set_mset_add_mset_insert set_mset_mset)

lemma sorted_qsort_insert:
  assumes "cmp_total_preorder cmp" "sorted_wrt (\<lambda>a b. cmp a b \<le> 0) ys"
  shows "sorted_wrt (\<lambda>a b. cmp a b \<le> 0) (qsort_insert cmp x ys)"
  using assms(2)
proof (induction ys)
  case Nil
  then show ?case by simp
next
  case (Cons y ys)
  show ?case
  proof (cases "0 < cmp y x")
    case True
    then have xy: "cmp x y \<le> 0"
      using cmp_total_preorder_flip(1) [OF assms(1), of y x] by simp
    have "cmp x z \<le> 0" if "z \<in> set ys" for z
      using that Cons.prems xy cmp_total_preorder_trans [OF assms(1), of x y z] by auto
    with True xy Cons.prems show ?thesis by auto
  next
    case False
    with Cons show ?thesis by auto
  qed
qed

lemma sorted_qsort_loop:
  assumes "cmp_total_preorder cmp" "sorted_wrt (\<lambda>a b. cmp a b \<le> 0) acc"
  shows "sorted_wrt (\<lambda>a b. cmp a b \<le> 0) (qsort_loop cmp acc xs)"
  using assms(2)
  by (induction xs arbitrary: acc) (simp_all add: sorted_qsort_insert [OF assms(1)])

lemma sorted_qsort_arg:
  assumes "cmp_total_preorder cmp"
  shows "sorted_wrt (\<lambda>a b. cmp a b \<le> 0) (qsort_arg cmp xs)"
  by (simp add: qsort_arg_def sorted_qsort_loop [OF assms])


subsection \<open>Assigning ordinals by first appearance\<close>

lemma mapping_inv_init: "mapping_inv n (replicate n (-1)) 0"
proof -
  have "mapped n (replicate n (-1)) = {}"
    by (auto simp: mapped_def)
  then show ?thesis by (simp add: mapping_inv_def)
qed

lemma mapping_inv_step:
  assumes inv: "mapping_inv n m nx" and o: "p < n"
  defines "m' \<equiv> (if m ! p = -1 then m[p := nx] else m)"
    and "nx' \<equiv> (if m ! p = -1 then nx + 1 else nx)"
  shows "mapping_inv n m' nx'"
    and "mapped n m' = insert p (mapped n m)"
    and "\<forall>i<n. m ! i \<noteq> -1 \<longrightarrow> m' ! i = m ! i"
proof -
  from inv have len: "length m = n" and nx: "0 \<le> nx"
    and inj: "inj_on (\<lambda>i. m ! i) (mapped n m)"
    and img: "(\<lambda>i. m ! i) ` mapped n m = {0..<nx}"
    by (auto simp: mapping_inv_def)
  show keep: "\<forall>i<n. m ! i \<noteq> -1 \<longrightarrow> m' ! i = m ! i"
    using len o by (auto simp: m'_def nth_list_update)
  show dom: "mapped n m' = insert p (mapped n m)"
    using len o nx by (auto simp: m'_def mapped_def nth_list_update)
  show "mapping_inv n m' nx'"
  proof (cases "m ! p = -1")
    case False
    then have "m' = m" "nx' = nx" by (simp_all add: m'_def nx'_def)
    moreover from False o have "insert p (mapped n m) = mapped n m"
      by (auto simp: mapped_def)
    ultimately show ?thesis using inv by simp
  next
    case True
    then have m': "m' = m[p := nx]" and nx': "nx' = nx + 1" by (simp_all add: m'_def nx'_def)
    have pn: "p \<notin> mapped n m" using True by (simp add: mapped_def)
    have same: "m' ! i = m ! i" if "i \<in> mapped n m" for i
      using that pn len by (cases "i = p") (auto simp: m' mapped_def)
    have mp: "m' ! p = nx" using len o by (simp add: m')
    have img': "(\<lambda>i. m' ! i) ` mapped n m' = {0..<nx + 1}"
    proof -
      have "(\<lambda>i. m' ! i) ` mapped n m' = insert nx ((\<lambda>i. m' ! i) ` mapped n m)"
        using dom mp by simp
      also have "(\<lambda>i. m' ! i) ` mapped n m = (\<lambda>i. m ! i) ` mapped n m"
        using same by (intro image_cong) auto
      finally show ?thesis using img nx by auto
    qed
    have inj': "inj_on (\<lambda>i. m' ! i) (mapped n m')"
      unfolding dom
    proof (rule inj_onI)
      fix i j assume ij: "i \<in> insert p (mapped n m)" "j \<in> insert p (mapped n m)"
        and eq: "m' ! i = m' ! j"
      have notnx: "m ! k \<noteq> nx" if "k \<in> mapped n m" for k
        using img that by (metis atLeastLessThan_iff image_eqI less_irrefl)
      show "i = j"
      proof (cases "i = p"; cases "j = p")
        assume "i = p" "j = p" then show ?thesis by simp
      next
        assume "i = p" "j \<noteq> p"
        with ij eq mp same [of j] notnx [of j] show ?thesis by auto
      next
        assume "i \<noteq> p" "j = p"
        with ij eq mp same [of i] notnx [of i] show ?thesis by auto
      next
        assume "i \<noteq> p" "j \<noteq> p"
        with ij eq same [of i] same [of j] inj show ?thesis by (auto dest: inj_onD)
      qed
    qed
    show ?thesis
      using len nx img' inj' by (simp add: mapping_inv_def m' nx')
  qed
qed

lemma mapping_inv_full:
  assumes inv: "mapping_inv n m nx" and full: "mapped n m = {..<n}"
  shows "nx = int n" "distinct m" "set m = {0..<int n}"
proof -
  from inv have len: "length m = n" and nx: "0 \<le> nx"
    and inj: "inj_on (\<lambda>i. m ! i) {..<n}"
    and img: "(\<lambda>i. m ! i) ` {..<n} = {0..<nx}"
    using full by (auto simp: mapping_inv_def)
  have "card ((\<lambda>i. m ! i) ` {..<n}) = n"
    using inj by (simp add: card_image)
  with img have "card {0..<nx} = n" by simp
  then show nxn: "nx = int n" using nx by simp
  show "distinct m"
    using inj len by (auto simp: distinct_conv_nth inj_on_def)
  have "set m = (\<lambda>i. m ! i) ` {..<n}"
    using len by (auto simp: set_conv_nth)
  then show "set m = {0..<int n}" using img nxn by simp
qed

lemma list_build_loop_inv:
  assumes "mapping_inv n m nx"
    and "\<forall>v \<in> set vs. 0 \<le> lv_index v \<and> nat (lv_index v) < n"
    and "list_build_loop vs m nx ds ixs = (m', nx', ds', ixs')"
  shows "mapping_inv n m' nx'
       \<and> mapped n m' = mapped n m \<union> (\<lambda>v. nat (lv_index v)) ` set vs
       \<and> (\<forall>i<n. m ! i \<noteq> -1 \<longrightarrow> m' ! i = m ! i)
       \<and> ds' = ds @ map (\<lambda>v. [lv_value v]) vs
       \<and> length ixs' = length ixs + length vs"
  using assms
proof (induction vs arbitrary: m nx ds ixs)
  case Nil
  then show ?case by simp
next
  case (Cons v vs)
  let ?p = "nat (lv_index v)"
  let ?m = "if m ! ?p = -1 then m[?p := nx] else m"
  let ?nx = "if m ! ?p = -1 then nx + 1 else nx"
  from Cons.prems(2) have p: "?p < n" by simp
  note step = mapping_inv_step [OF Cons.prems(1) p]
  have rec: "list_build_loop vs ?m ?nx (ds @ [[lv_value v]]) (ixs @ [?m ! ?p])
      = (m', nx', ds', ixs')"
    using Cons.prems(3) by (simp add: Let_def)
  have ih: "mapping_inv n m' nx'
       \<and> mapped n m' = mapped n ?m \<union> (\<lambda>v. nat (lv_index v)) ` set vs
       \<and> (\<forall>i<n. ?m ! i \<noteq> -1 \<longrightarrow> m' ! i = ?m ! i)
       \<and> ds' = (ds @ [[lv_value v]]) @ map (\<lambda>v. [lv_value v]) vs
       \<and> length ixs' = length (ixs @ [?m ! ?p]) + length vs"
    using Cons.prems(2) by (intro Cons.IH [OF step(1) _ rec]) simp
  have keep: "\<forall>i<n. m ! i \<noteq> -1 \<longrightarrow> m' ! i = m ! i"
  proof (intro allI impI)
    fix i assume i: "i < n" "m ! i \<noteq> -1"
    with step(3) have "?m ! i = m ! i" by blast
    with i ih show "m' ! i = m ! i" by metis
  qed
  from ih step(2) keep show ?case by auto
qed

subsection \<open>List partitions\<close>

lemma list_datums_loop_ok:
  assumes "0 \<le> i"
    and "length (filter constisnull cs) + (if null_idx = -1 then 0 else 1) \<le> 1"
  shows "list_datums_loop cs i null_idx acc =
           Inr (if \<exists>c \<in> set cs. constisnull c then i else null_idx,
                acc @ map (\<lambda>c. \<lparr>lv_index = i, lv_value = constvalue c\<rparr>)
                        (filter (\<lambda>c. \<not> constisnull c) cs))"
  using assms(2)
proof (induction cs arbitrary: null_idx acc)
  case Nil
  then show ?case by simp
next
  case (Cons c cs)
  show ?case
  proof (cases "constisnull c")
    case False
    with Cons.prems Cons.IH [of null_idx] show ?thesis by simp
  next
    case True
    with Cons.prems have ni: "null_idx = -1" and none: "filter constisnull cs = []"
      by (auto split: if_splits)
    from none have nn: "\<not> (\<exists>c \<in> set cs. constisnull c)"
      by (auto simp: filter_empty_conv)
    have "length (filter constisnull cs) + (if i = -1 then 0 else 1) \<le> 1"
      using none assms(1) by simp
    from Cons.IH [OF this] True ni nn show ?thesis by simp
  qed
qed

lemma list_specs_loop_ok:
  assumes "0 \<le> i"
    and "\<forall>s \<in> set specs. spec_strategy s = PARTITION_STRATEGY_LIST"
    and "length (filter constisnull (concat (map listdatums specs)))
           + (if null_idx = -1 then 0 else 1) \<le> 1"
  shows "list_specs_loop specs i null_idx acc =
           Inr (list_null_of specs i null_idx, acc @ list_values_of specs i)"
  using assms
proof (induction specs arbitrary: i null_idx acc)
  case Nil
  then show ?case by simp
next
  case (Cons spec rest)
  let ?ni = "if \<exists>c \<in> set (listdatums spec). constisnull c then i else null_idx"
  have here: "length (filter constisnull (listdatums spec)) + (if null_idx = -1 then 0 else 1) \<le> 1"
    using Cons.prems(3) by simp
  have step: "list_datums_loop (listdatums spec) i null_idx acc =
      Inr (?ni, acc @ map (\<lambda>c. \<lparr>lv_index = i, lv_value = constvalue c\<rparr>)
                        (filter (\<lambda>c. \<not> constisnull c) (listdatums spec)))"
    by (rule list_datums_loop_ok [OF Cons.prems(1) here])
  have later: "length (filter constisnull (concat (map listdatums rest)))
           + (if ?ni = -1 then 0 else 1) \<le> 1"
  proof (cases "\<exists>c \<in> set (listdatums spec). constisnull c")
    case True
    then have "filter constisnull (listdatums spec) \<noteq> []"
      by (auto simp: filter_empty_conv)
    then have "1 \<le> length (filter constisnull (listdatums spec))"
      by (cases "filter constisnull (listdatums spec)") auto
    moreover have "length (filter constisnull (listdatums spec))
        + length (filter constisnull (concat (map listdatums rest)))
        + (if null_idx = -1 then 0 else 1) \<le> 1"
      using Cons.prems(3) by simp
    ultimately have "length (filter constisnull (concat (map listdatums rest))) = 0"
      by linarith
    with Cons.prems(1) True show ?thesis by simp
  next
    case False
    with Cons.prems(3) show ?thesis by simp
  qed
  have "list_specs_loop rest (i + 1) ?ni
          (acc @ map (\<lambda>c. \<lparr>lv_index = i, lv_value = constvalue c\<rparr>)
                        (filter (\<lambda>c. \<not> constisnull c) (listdatums spec)))
        = Inr (list_null_of rest (i + 1) ?ni,
               (acc @ map (\<lambda>c. \<lparr>lv_index = i, lv_value = constvalue c\<rparr>)
                        (filter (\<lambda>c. \<not> constisnull c) (listdatums spec)))
               @ list_values_of rest (i + 1))"
    using Cons.prems(1,2) later by (intro Cons.IH) auto
  with step Cons.prems(2) show ?case by simp
qed

lemma list_values_of_owner:
  "v \<in> set (list_values_of specs i) \<longleftrightarrow>
     (\<exists>p<length specs. \<exists>c \<in> set (listdatums (specs ! p)).
        \<not> constisnull c \<and> v = \<lparr>lv_index = i + int p, lv_value = constvalue c\<rparr>)"
proof (induction specs arbitrary: i)
  case Nil
  then show ?case by simp
next
  case (Cons spec rest)
  have "(\<exists>p<length (spec # rest). \<exists>c \<in> set (listdatums ((spec # rest) ! p)).
        \<not> constisnull c \<and> v = \<lparr>lv_index = i + int p, lv_value = constvalue c\<rparr>)
      \<longleftrightarrow> (\<exists>c \<in> set (listdatums spec). \<not> constisnull c \<and> v = \<lparr>lv_index = i, lv_value = constvalue c\<rparr>)
         \<or> (\<exists>p<length rest. \<exists>c \<in> set (listdatums (rest ! p)).
        \<not> constisnull c \<and> v = \<lparr>lv_index = i + 1 + int p, lv_value = constvalue c\<rparr>)"
    (is "?L \<longleftrightarrow> ?A \<or> ?B")
  proof
    assume ?L
    then obtain p c where pc: "p < length (spec # rest)" "c \<in> set (listdatums ((spec # rest) ! p))"
      "\<not> constisnull c" "v = \<lparr>lv_index = i + int p, lv_value = constvalue c\<rparr>" by blast
    show "?A \<or> ?B"
    proof (cases p)
      case 0
      with pc show ?thesis by auto
    next
      case (Suc q)
      with pc have "q < length rest" "c \<in> set (listdatums (rest ! q))"
        "v = \<lparr>lv_index = i + 1 + int q, lv_value = constvalue c\<rparr>" by auto
      with pc(3) show ?thesis by blast
    qed
  next
    assume "?A \<or> ?B"
    then show ?L
    proof
      assume ?A
      then show ?L by (intro exI [of _ 0]) auto
    next
      assume ?B
      then obtain q c where "q < length rest" "c \<in> set (listdatums (rest ! q))"
        "\<not> constisnull c" "v = \<lparr>lv_index = i + 1 + int q, lv_value = constvalue c\<rparr>" by blast
      then show ?L by (intro exI [of _ "Suc q"]) auto
    qed
  qed
  with Cons.IH [of "i + 1"] show ?case by auto
qed

lemma list_null_of_cases:
  "list_null_of specs i null_idx = null_idx \<and>
     (\<forall>p<length specs. \<not> (\<exists>c \<in> set (listdatums (specs ! p)). constisnull c))
   \<or> (\<exists>p<length specs. list_null_of specs i null_idx = i + int p \<and>
         (\<exists>c \<in> set (listdatums (specs ! p)). constisnull c) \<and>
         (\<forall>q<length specs. p < q \<longrightarrow> \<not> (\<exists>c \<in> set (listdatums (specs ! q)). constisnull c)))"
proof (induction specs arbitrary: i null_idx)
  case Nil
  then show ?case by simp
next
  case (Cons spec rest)
  let ?ni = "if \<exists>c \<in> set (listdatums spec). constisnull c then i else null_idx"
  from Cons.IH [of "i + 1" ?ni]
  consider (keep) "list_null_of rest (i + 1) ?ni = ?ni"
      "\<forall>p<length rest. \<not> (\<exists>c \<in> set (listdatums (rest ! p)). constisnull c)"
    | (later) p where "p < length rest" "list_null_of rest (i + 1) ?ni = i + 1 + int p"
      "\<exists>c \<in> set (listdatums (rest ! p)). constisnull c"
      "\<forall>q<length rest. p < q \<longrightarrow> \<not> (\<exists>c \<in> set (listdatums (rest ! q)). constisnull c)"
    by blast
  then show ?case
  proof cases
    case keep
    show ?thesis
    proof (cases "\<exists>c \<in> set (listdatums spec). constisnull c")
      case True
      have "\<forall>q<length (spec # rest). 0 < q \<longrightarrow>
              \<not> (\<exists>c \<in> set (listdatums ((spec # rest) ! q)). constisnull c)"
        using keep(2) by (auto simp: nth_Cons split: nat.splits)
      with True keep(1) show ?thesis
        by (intro disjI2 exI [of _ 0]) simp
    next
      case False
      have "\<forall>p<length (spec # rest).
              \<not> (\<exists>c \<in> set (listdatums ((spec # rest) ! p)). constisnull c)"
        using keep(2) False by (auto simp: nth_Cons split: nat.splits)
      with False keep(1) show ?thesis by simp
    qed
  next
    case later
    have "\<forall>q<length (spec # rest). Suc p < q \<longrightarrow>
              \<not> (\<exists>c \<in> set (listdatums ((spec # rest) ! q)). constisnull c)"
      using later(4) by (auto simp: nth_Cons split: nat.splits)
    with later(1,2,3) show ?thesis
      by (intro disjI2 exI [of _ "Suc p"]) simp
  qed
qed

lemma list_null_of_none:
  assumes "\<forall>s \<in> set specs. \<not> (\<exists>c \<in> set (listdatums s). constisnull c)"
  shows "list_null_of specs i null_idx = null_idx"
  using assms by (induction specs arbitrary: i null_idx) simp_all

lemma list_null_of_pos:
  assumes "length (filter constisnull (concat (map listdatums specs))) \<le> 1"
    and "q < length specs" "\<exists>c \<in> set (listdatums (specs ! q)). constisnull c"
  shows "list_null_of specs i null_idx = i + int q"
  using assms
proof (induction specs arbitrary: i null_idx q)
  case Nil
  then show ?case by simp
next
  case (Cons spec rest)
  show ?case
  proof (cases "\<exists>c \<in> set (listdatums spec). constisnull c")
    case True
    then have "filter constisnull (listdatums spec) \<noteq> []"
      by (auto simp: filter_empty_conv)
    then have "1 \<le> length (filter constisnull (listdatums spec))"
      by (cases "filter constisnull (listdatums spec)") auto
    moreover have "length (filter constisnull (listdatums spec))
        + length (filter constisnull (concat (map listdatums rest))) \<le> 1"
      using Cons.prems(1) by simp
    ultimately have "length (filter constisnull (concat (map listdatums rest))) = 0"
      by linarith
    then have none: "\<forall>s \<in> set rest. \<not> (\<exists>c \<in> set (listdatums s). constisnull c)"
      by (auto simp: filter_empty_conv)
    have "q = 0"
    proof (cases q)
      case (Suc k)
      with Cons.prems(2,3) none show ?thesis by auto
    qed simp
    with True list_null_of_none [OF none] show ?thesis by simp
  next
    case False
    with Cons.prems(3) obtain k where q: "q = Suc k" by (cases q) auto
    with Cons.prems have "list_null_of rest (i + 1) null_idx = i + 1 + int k"
      by (intro Cons.IH) auto
    with False q show ?thesis by simp
  qed
qed

lemma assign_oids_loop_ok:
  assumes "length m = n" "\<forall>j<n. 0 \<le> m ! j \<and> m ! j < int n" "distinct m"
    and "length r = n" "i + length os = n"
  shows "\<exists>r'. assign_oids_loop m os i r = Inr r' \<and> length r' = n \<and>
           (\<forall>j. i \<le> j \<and> j < n \<longrightarrow> r' ! nat (m ! j) = os ! (j - i)) \<and>
           (\<forall>k<n. k \<notin> (\<lambda>j. nat (m ! j)) ` {i..<n} \<longrightarrow> r' ! k = r ! k)"
  using assms(4,5)
proof (induction os arbitrary: i r)
  case Nil
  then show ?case by auto
next
  case (Cons oid rest)
  from Cons.prems(2) have i: "i < n" by simp
  with assms(2) have mi: "0 \<le> m ! i" "m ! i < int n" by auto
  let ?r = "r[nat (m ! i) := oid]"
  have "\<exists>r'. assign_oids_loop m rest (Suc i) ?r = Inr r' \<and> length r' = n \<and>
           (\<forall>j. Suc i \<le> j \<and> j < n \<longrightarrow> r' ! nat (m ! j) = rest ! (j - Suc i)) \<and>
           (\<forall>k<n. k \<notin> (\<lambda>j. nat (m ! j)) ` {Suc i..<n} \<longrightarrow> r' ! k = ?r ! k)"
    using Cons.prems by (intro Cons.IH) auto
  then obtain r' where r': "assign_oids_loop m rest (Suc i) ?r = Inr r'" "length r' = n"
    "\<forall>j. Suc i \<le> j \<and> j < n \<longrightarrow> r' ! nat (m ! j) = rest ! (j - Suc i)"
    "\<forall>k<n. k \<notin> (\<lambda>j. nat (m ! j)) ` {Suc i..<n} \<longrightarrow> r' ! k = ?r ! k"
    by blast
  have run: "assign_oids_loop m (oid # rest) i r = Inr r'"
    using r'(1) mi Cons.prems(1) by simp
  have notin: "nat (m ! i) \<notin> (\<lambda>j. nat (m ! j)) ` {Suc i..<n}"
  proof
    assume "nat (m ! i) \<in> (\<lambda>j. nat (m ! j)) ` {Suc i..<n}"
    then obtain j where j: "Suc i \<le> j" "j < n" "nat (m ! i) = nat (m ! j)" by auto
    moreover have "0 \<le> m ! j" using assms(2) j(2) by simp
    ultimately have "m ! i = m ! j" using mi(1) by (metis nat_0_le)
    with assms(1,3) i j(1,2) show False
      by (auto simp: distinct_conv_nth)
  qed
  have at_i: "r' ! nat (m ! i) = oid"
    using r'(4) notin mi Cons.prems(1) by auto
  have first: "\<forall>j. i \<le> j \<and> j < n \<longrightarrow> r' ! nat (m ! j) = (oid # rest) ! (j - i)"
  proof (intro allI impI)
    fix j assume j: "i \<le> j \<and> j < n"
    show "r' ! nat (m ! j) = (oid # rest) ! (j - i)"
    proof (cases "j = i")
      case True
      with at_i show ?thesis by simp
    next
      case False
      with j have "Suc i \<le> j" by simp
      with j r'(3) have "r' ! nat (m ! j) = rest ! (j - Suc i)" by simp
      moreover from \<open>Suc i \<le> j\<close> have "j - i = Suc (j - Suc i)" by simp
      ultimately show ?thesis by simp
    qed
  qed
  have second: "\<forall>k<n. k \<notin> (\<lambda>j. nat (m ! j)) ` {i..<n} \<longrightarrow> r' ! k = r ! k"
  proof (intro allI impI)
    fix k assume k: "k < n" "k \<notin> (\<lambda>j. nat (m ! j)) ` {i..<n}"
    then have "k \<notin> (\<lambda>j. nat (m ! j)) ` {Suc i..<n}" by auto
    with k r'(4) have "r' ! k = ?r ! k" by simp
    moreover from k i have "k \<noteq> nat (m ! i)" by auto
    ultimately show "r' ! k = r ! k" by simp
  qed
  from run r'(2) first second show ?case by blast
qed

lemma list_bounds_bijection:
  assumes valid: "valid_list_parts specs" and n: "n = length specs"
  shows "\<exists>mapping bi. list_bounds key n specs = Inr (mapping, bi) \<and>
           length mapping = n \<and> distinct mapping \<and> set mapping = {0..<int n}"
proof -
  from valid have strat: "\<forall>s \<in> set specs. spec_strategy s = PARTITION_STRATEGY_LIST"
    and nonempty: "\<forall>s \<in> set specs. listdatums s \<noteq> []"
    and nulls: "length (filter constisnull (concat (map listdatums specs))) \<le> 1"
    by (auto simp: valid_list_parts_def)
  define ni where "ni = list_null_of specs 0 (-1)"
  define vs where "vs = list_values_of specs 0"
  define all_values where "all_values = qsort_arg (qsort_partition_list_value_cmp key) vs"
  have coll: "list_specs_loop specs 0 (-1) [] = Inr (ni, vs)"
    using list_specs_loop_ok [of 0 specs "-1" "[]"] strat nulls
    by (simp add: ni_def vs_def)
  obtain m nx ds ixs where build:
    "list_build_loop all_values (replicate n (-1)) 0 [] [] = (m, nx, ds, ixs)"
    by (metis prod_cases4)
  have owners: "\<forall>v \<in> set all_values. 0 \<le> lv_index v \<and> nat (lv_index v) < n"
    using list_values_of_owner [of _ specs 0] n by (auto simp: all_values_def vs_def)
  from list_build_loop_inv [OF mapping_inv_init owners build]
  have inv: "mapping_inv n m nx"
    and dom: "mapped n m = mapped n (replicate n (-1)) \<union> (\<lambda>v. nat (lv_index v)) ` set all_values"
    by auto
  have dom0: "mapped n (replicate n (-1)) = {}" by (auto simp: mapped_def)
  define m' where "m' = (if ni \<noteq> -1 \<and> m ! nat ni = -1 then m[nat ni := nx] else m)"
  have res: "list_bounds key n specs =
      Inr (m', \<lparr>bi_strategy = strategy key, ndatums = int (length vs), bi_datums = ds,
                bi_content = None, bi_indexes = ixs,
                null_index = (if ni \<noteq> -1 then m' ! nat ni else -1)\<rparr>)"
    using coll build by (simp add: list_bounds_def all_values_def [symmetric] m'_def Let_def)
  have ni_cases: "ni = -1 \<and> (\<forall>p<n. \<not> (\<exists>c \<in> set (listdatums (specs ! p)). constisnull c))
      \<or> (\<exists>p<n. ni = int p)"
    using list_null_of_cases [of specs 0 "-1"] n by (auto simp: ni_def)
  have inv': "\<exists>nx'. mapping_inv n m' nx'" and dom': "mapped n m \<subseteq> mapped n m'"
    and null_dom: "ni \<noteq> -1 \<longrightarrow> nat ni \<in> mapped n m'"
  proof -
    show "\<exists>nx'. mapping_inv n m' nx'"
    proof (cases "ni = -1")
      case True
      with inv show ?thesis by (auto simp: m'_def)
    next
      case False
      with ni_cases obtain p where p: "p < n" "ni = int p" by auto
      from mapping_inv_step(1) [OF inv p(1)] False p show ?thesis
        by (auto simp: m'_def)
    qed
    show "mapped n m \<subseteq> mapped n m'"
    proof (cases "ni = -1")
      case True
      then show ?thesis by (simp add: m'_def)
    next
      case False
      with ni_cases obtain p where p: "p < n" "ni = int p" by auto
      from mapping_inv_step(2) [OF inv p(1)] False p show ?thesis
        by (auto simp: m'_def split: if_splits)
    qed
    show "ni \<noteq> -1 \<longrightarrow> nat ni \<in> mapped n m'"
    proof
      assume ne: "ni \<noteq> -1"
      with ni_cases obtain p where p: "p < n" "ni = int p" by auto
      from mapping_inv_step(2) [OF inv p(1)] ne p show "nat ni \<in> mapped n m'"
        by (auto simp: m'_def split: if_splits)
    qed
  qed
  have full: "mapped n m' = {..<n}"
  proof
    show "mapped n m' \<subseteq> {..<n}" by (auto simp: mapped_def)
    show "{..<n} \<subseteq> mapped n m'"
    proof
      fix q assume "q \<in> {..<n}"
      then have q: "q < length specs" using n by simp
      with nonempty obtain c where c: "c \<in> set (listdatums (specs ! q))"
        by (metis last_in_set nth_mem)
      show "q \<in> mapped n m'"
      proof (cases "constisnull c")
        case False
        with c q have "\<lparr>lv_index = int q, lv_value = constvalue c\<rparr> \<in> set vs"
          unfolding vs_def list_values_of_owner by auto
        then have "q \<in> (\<lambda>v. nat (lv_index v)) ` set all_values"
          by (force simp: all_values_def)
        with dom dom' show ?thesis by auto
      next
        case True
        with c have "\<exists>c \<in> set (listdatums (specs ! q)). constisnull c" by blast
        from list_null_of_pos [OF nulls q this, of 0 "-1"] have "ni = int q"
          by (simp add: ni_def)
        with null_dom show ?thesis by auto
      qed
    qed
  qed
  from inv' obtain nx' where "mapping_inv n m' nx'" by blast
  from mapping_inv_full [OF this full] have "distinct m'" "set m' = {0..<int n}" by auto
  moreover have "length m' = n"
    using \<open>mapping_inv n m' nx'\<close> by (simp add: mapping_inv_def)
  ultimately show ?thesis using res by blast
qed

subsection \<open>Range partitions\<close>

lemma make_one_range_bound_loop_index:
  "make_one_range_bound_loop ds lower k (b\<lparr>rb_index := i\<rparr>) =
     (case make_one_range_bound_loop ds lower k b of
        Inl e \<Rightarrow> Inl e | Inr b' \<Rightarrow> Inr (b'\<lparr>rb_index := i\<rparr>))"
proof (induction ds arbitrary: k b)
  case Nil
  then show ?case by simp
next
  case (Cons d ds)
  define c where "c = (if \<not> infinite d then RANGE_DATUM_FINITE
                  else if lower then RANGE_DATUM_NEG_INF else RANGE_DATUM_POS_INF)"
  define b1 where "b1 = b\<lparr>rb_content := (rb_content b)[k := c]\<rparr>"
  define b2 where "b2 = b1\<lparr>rb_datums := (rb_datums b1)[k := constvalue (rd_value d)]\<rparr>"
  have u1: "(b\<lparr>rb_index := i\<rparr>)\<lparr>rb_content := (rb_content (b\<lparr>rb_index := i\<rparr>))[k := c]\<rparr>
      = b1\<lparr>rb_index := i\<rparr>"
    by (simp add: b1_def)
  have u2: "(b1\<lparr>rb_index := i\<rparr>)\<lparr>rb_datums := (rb_datums (b1\<lparr>rb_index := i\<rparr>))[k := constvalue (rd_value d)]\<rparr>
      = b2\<lparr>rb_index := i\<rparr>"
    by (simp add: b2_def)
  have lhs: "make_one_range_bound_loop (d # ds) lower k (b\<lparr>rb_index := i\<rparr>) =
     (if length (rb_content b) \<le> k then Inl Undefined_behaviour
      else if c = RANGE_DATUM_FINITE then
        (if constisnull (rd_value d) then Inl Invalid_range_bound_datum
         else make_one_range_bound_loop ds lower (Suc k) (b2\<lparr>rb_index := i\<rparr>))
      else make_one_range_bound_loop ds lower (Suc k) (b1\<lparr>rb_index := i\<rparr>))"
    unfolding make_one_range_bound_loop.simps Let_def c_def [symmetric] u1 u2 by simp
  have rhs: "make_one_range_bound_loop (d # ds) lower k b =
     (if length (rb_content b) \<le> k then Inl Undefined_behaviour
      else if c = RANGE_DATUM_FINITE then
        (if constisnull (rd_value d) then Inl Invalid_range_bound_datum
         else make_one_range_bound_loop ds lower (Suc k) b2)
      else make_one_range_bound_loop ds lower (Suc k) b1)"
    unfolding make_one_range_bound_loop.simps Let_def c_def [symmetric] b1_def [symmetric]
      b2_def [symmetric] by simp
  show ?case
    unfolding lhs rhs by (simp add: Cons.IH)
qed

lemma make_one_range_bound_index:
  "make_one_range_bound key i ds lower =
     (case make_one_range_bound key j ds lower of
        Inl e \<Rightarrow> Inl e | Inr b \<Rightarrow> Inr (b\<lparr>rb_index := i\<rparr>))"
proof -
  have "\<lparr>rb_index = i, rb_datums = replicate (partnatts key) 0,
         rb_content = replicate (partnatts key) RANGE_DATUM_FINITE, rb_lower = lower\<rparr>
      = \<lparr>rb_index = j, rb_datums = replicate (partnatts key) 0,
         rb_content = replicate (partnatts key) RANGE_DATUM_FINITE, rb_lower = lower\<rparr>
          \<lparr>rb_index := i\<rparr>"
    by simp
  then show ?thesis
    unfolding make_one_range_bound_def
    by (simp only: make_one_range_bound_loop_index)
qed

lemma make_one_range_bound_loop_lower:
  "make_one_range_bound_loop ds lower k b = Inr b' \<Longrightarrow> rb_lower b' = rb_lower b"
proof (induction ds arbitrary: k b)
  case Nil
  then show ?case by simp
next
  case (Cons d ds)
  from Cons.prems obtain b0 where
    "make_one_range_bound_loop ds lower (Suc k) b0 = Inr b'" "rb_lower b0 = rb_lower b"
    by (simp add: Let_def split: if_splits)
  with Cons.IH [of "Suc k" b0] show ?case by simp
qed

lemma make_one_range_bound_lower:
  "make_one_range_bound key i ds lower = Inr b \<Longrightarrow> rb_lower b = lower"
  unfolding make_one_range_bound_def
  by (drule make_one_range_bound_loop_lower) simp

lemma range_specs_loop_ok:
  assumes "\<forall>s \<in> set specs. spec_strategy s = PARTITION_STRATEGY_RANGE \<and>
             (\<exists>l u. spec_lower key s = Inr l \<and> spec_upper key s = Inr u)"
  shows "range_specs_loop key specs i acc = Inr (acc @ range_markers_of key specs i)"
  using assms
proof (induction specs arbitrary: i acc)
  case Nil
  then show ?case by simp
next
  case (Cons spec rest)
  from Cons.prems obtain l u where lu: "spec_lower key spec = Inr l" "spec_upper key spec = Inr u"
    and strat: "spec_strategy spec = PARTITION_STRATEGY_RANGE"
    by auto
  have l: "make_one_range_bound key i (lowerdatums spec) True = Inr (l\<lparr>rb_index := i\<rparr>)"
    using lu(1) make_one_range_bound_index [of key i "lowerdatums spec" True "-1"]
    by (simp add: spec_lower_def)
  have u: "make_one_range_bound key i (upperdatums spec) False = Inr (u\<lparr>rb_index := i\<rparr>)"
    using lu(2) make_one_range_bound_index [of key i "upperdatums spec" False "-1"]
    by (simp add: spec_upper_def)
  have "range_specs_loop key rest (i + 1) (acc @ [l\<lparr>rb_index := i\<rparr>, u\<lparr>rb_index := i\<rparr>])
      = Inr ((acc @ [l\<lparr>rb_index := i\<rparr>, u\<lparr>rb_index := i\<rparr>]) @ range_markers_of key rest (i + 1))"
    using Cons.prems by (intro Cons.IH) auto
  with l u strat lu show ?case by simp
qed

lemma range_markers_of_mem:
  "b \<in> set (range_markers_of key specs i) \<longleftrightarrow>
     (\<exists>p<length specs. b = (projr (spec_lower key (specs ! p)))\<lparr>rb_index := i + int p\<rparr>
                      \<or> b = (projr (spec_upper key (specs ! p)))\<lparr>rb_index := i + int p\<rparr>)"
proof (induction specs arbitrary: i)
  case Nil
  then show ?case by simp
next
  case (Cons spec rest)
  let ?Q = "\<lambda>specs i p. b = (projr (spec_lower key (specs ! p)))\<lparr>rb_index := i + int p\<rparr>
                      \<or> b = (projr (spec_upper key (specs ! p)))\<lparr>rb_index := i + int p\<rparr>"
  have "(\<exists>p<length (spec # rest). ?Q (spec # rest) i p)
        \<longleftrightarrow> ?Q (spec # rest) i 0 \<or> (\<exists>p<length rest. ?Q rest (i + 1) p)"
  proof
    assume "\<exists>p<length (spec # rest). ?Q (spec # rest) i p"
    then obtain p where p: "p < length (spec # rest)" "?Q (spec # rest) i p" by blast
    show "?Q (spec # rest) i 0 \<or> (\<exists>p<length rest. ?Q rest (i + 1) p)"
    proof (cases p)
      case 0
      with p show ?thesis by simp
    next
      case (Suc k)
      with p have "k < length rest" "?Q rest (i + 1) k" by (auto simp: add.assoc)
      then show ?thesis by blast
    qed
  next
    assume "?Q (spec # rest) i 0 \<or> (\<exists>p<length rest. ?Q rest (i + 1) p)"
    then show "\<exists>p<length (spec # rest). ?Q (spec # rest) i p"
    proof
      assume "?Q (spec # rest) i 0"
      then show ?thesis by (intro exI [of _ 0]) simp
    next
      assume "\<exists>p<length rest. ?Q rest (i + 1) p"
      then obtain k where "k < length rest" "?Q rest (i + 1) k" by blast
      then show ?thesis by (intro exI [of _ "Suc k"]) (auto simp: add.assoc)
    qed
  qed
  with Cons.IH [of "i + 1"] show ?case by auto
qed

lemma rbound_cmp_index_irrelevant [simp]:
  "qsort_partition_rbound_cmp key (a\<lparr>rb_index := x\<rparr>) b = qsort_partition_rbound_cmp key a b"
  "qsort_partition_rbound_cmp key a (b\<lparr>rb_index := y\<rparr>) = qsort_partition_rbound_cmp key a b"
  by (simp_all add: qsort_partition_rbound_cmp_def partition_rbound_cmp_def split: sum.splits)

lemma rbound_cmp_all_equal:
  assumes "\<forall>i<partnatts key. content1 ! i = RANGE_DATUM_FINITE \<and>
             rb_content b2 ! i = RANGE_DATUM_FINITE \<and>
             partsupfunc key i (datums1 ! i) (rb_datums b2 ! i) = 0"
  shows "partition_rbound_cmp key datums1 content1 lower1 b2 =
           (if lower1 = rb_lower b2 then 0 else if lower1 then 1 else -1)"
proof -
  have "rbound_cmp_loop key datums1 content1 (rb_datums b2) (rb_content b2) 0 0
      = rbound_cmp_loop key datums1 content1 (rb_datums b2) (rb_content b2) (partnatts key) 0"
    using assms by (intro rbound_cmp_loop_skip_equal) auto
  also have "\<dots> = Inr 0"
    by (subst rbound_cmp_loop.simps) simp
  finally show ?thesis
    by (simp add: partition_rbound_cmp_def)
qed

lemma valid_range_markers:
  assumes "valid_range_parts key specs" "p < length specs"
  shows "spec_lower key (specs ! p) = Inr (projr (spec_lower key (specs ! p)))"
    and "spec_upper key (specs ! p) = Inr (projr (spec_upper key (specs ! p)))"
    and "rb_lower (projr (spec_lower key (specs ! p)))"
    and "\<not> rb_lower (projr (spec_upper key (specs ! p)))"
    and "qsort_partition_rbound_cmp key (projr (spec_lower key (specs ! p)))
           (projr (spec_upper key (specs ! p))) < 0"
proof -
  from assms obtain l u where lu: "spec_lower key (specs ! p) = Inr l"
    "spec_upper key (specs ! p) = Inr u" "qsort_partition_rbound_cmp key l u < 0"
    unfolding valid_range_parts_def by (metis nth_mem)
  then show "spec_lower key (specs ! p) = Inr (projr (spec_lower key (specs ! p)))"
    "spec_upper key (specs ! p) = Inr (projr (spec_upper key (specs ! p)))"
    "qsort_partition_rbound_cmp key (projr (spec_lower key (specs ! p)))
           (projr (spec_upper key (specs ! p))) < 0"
    by simp_all
  from lu(1) show "rb_lower (projr (spec_lower key (specs ! p)))"
    using make_one_range_bound_lower [of key "-1" "lowerdatums (specs ! p)" True l]
    by (simp add: spec_lower_def)
  from lu(2) show "\<not> rb_lower (projr (spec_upper key (specs ! p)))"
    using make_one_range_bound_lower [of key "-1" "upperdatums (specs ! p)" False u]
    by (simp add: spec_upper_def)
qed

lemma valid_range_uppers_differ:
  assumes valid: "valid_range_parts key specs"
    and pq: "p < length specs" "q < length specs" "p \<noteq> q"
  shows "qsort_partition_rbound_cmp key (projr (spec_upper key (specs ! p)))
           (projr (spec_upper key (specs ! q))) \<noteq> 0"
proof -
  let ?L = "\<lambda>p. projr (spec_lower key (specs ! p))"
  let ?U = "\<lambda>p. projr (spec_upper key (specs ! p))"
  let ?c = "qsort_partition_rbound_cmp key"
  from valid have pre: "cmp_total_preorder ?c"
    by (intro qsort_partition_rbound_cmp_total_preorder) (simp add: valid_range_parts_def)
  from valid pq have "ranges_disjoint key (specs ! p) (specs ! q)"
    by (simp add: valid_range_parts_def)
  then consider "?c (?U p) (?L q) \<le> 0" | "?c (?U q) (?L p) \<le> 0"
    by (auto simp: ranges_disjoint_def)
  then show ?thesis
  proof cases
    case 1
    with valid_range_markers(5) [OF valid pq(2)] have "?c (?U p) (?U q) < 0"
      using cmp_total_preorder_le_lt [OF pre] by blast
    then show ?thesis by simp
  next
    case 2
    with valid_range_markers(5) [OF valid pq(1)] have "?c (?U q) (?U p) < 0"
      using cmp_total_preorder_le_lt [OF pre] by blast
    then have "0 < ?c (?U p) (?U q)"
      using cmp_total_preorder_flip(1) [OF pre] by blast
    then show ?thesis by simp
  qed
qed

lemma range_markers_of_distinct:
  assumes "\<forall>s \<in> set specs. rb_lower (projr (spec_lower key s)) \<and>
             \<not> rb_lower (projr (spec_upper key s))"
  shows "distinct (range_markers_of key specs i)"
  using assms
proof (induction specs arbitrary: i)
  case Nil
  then show ?case by simp
next
  case (Cons spec rest)
  have later: "rb_index b \<noteq> i" if "b \<in> set (range_markers_of key rest (i + 1))" for b
  proof -
    from that obtain p where
      "b = (projr (spec_lower key (rest ! p)))\<lparr>rb_index := i + 1 + int p\<rparr>
       \<or> b = (projr (spec_upper key (rest ! p)))\<lparr>rb_index := i + 1 + int p\<rparr>"
      unfolding range_markers_of_mem by blast
    then have "rb_index b = i + 1 + int p"
      by (elim disjE) simp_all
    then show ?thesis by simp
  qed
  have l: "(projr (spec_lower key spec))\<lparr>rb_index := i\<rparr> \<notin> set (range_markers_of key rest (i + 1))"
    using later by force
  have u: "(projr (spec_upper key spec))\<lparr>rb_index := i\<rparr> \<notin> set (range_markers_of key rest (i + 1))"
    using later by force
  have ne: "(projr (spec_lower key spec))\<lparr>rb_index := i\<rparr>
      \<noteq> (projr (spec_upper key spec))\<lparr>rb_index := i\<rparr>"
    using Cons.prems by (metis PartitionRangeBound.select_convs(4) PartitionRangeBound.surjective
        PartitionRangeBound.update_convs(1) list.set_intros(1))
  from Cons.IH [of "i + 1"] Cons.prems l u ne show ?case by simp
qed

lemma distinct_rbounds_mem:
  assumes "q < length xs" "distinct_indexes_loop key xs None ! q"
  shows "xs ! q \<in> set (distinct_rbounds key xs)"
proof -
  let ?ds = "distinct_indexes_loop key xs None"
  have "(xs ! q, ?ds ! q) \<in> set (zip xs ?ds)"
    using assms(1) by (metis length_distinct_indexes_loop length_zip min.idem nth_mem nth_zip)
  with assms(2) have "(xs ! q, ?ds ! q) \<in> set (filter snd (zip xs ?ds))" by simp
  then show ?thesis
    unfolding distinct_rbounds_def by force
qed

lemma distinct_rbounds_subset: "set (distinct_rbounds key xs) \<subseteq> set xs"
  unfolding distinct_rbounds_def by (auto dest: set_zip_leftD)

lemma is_distinct_loop_first:
  "is_distinct_loop key cur None 0 \<longleftrightarrow> 0 < partnatts key"
  by (subst is_distinct_loop.simps) simp

lemma valid_range_upper_is_distinct:
  assumes valid: "valid_range_parts key specs"
    and srt: "srt = qsort_arg (qsort_partition_rbound_cmp key) (range_markers_of key specs 0)"
    and q: "q < length srt" and up: "\<not> rb_lower (srt ! q)"
  shows "distinct_indexes_loop key srt None ! q"
proof (cases q)
  case 0
  with valid q show ?thesis
    by (simp add: distinct_indexes_loop_nth is_distinct_loop_first valid_range_parts_def)
next
  case (Suc r)
  let ?c = "qsort_partition_rbound_cmp key"
  let ?L = "\<lambda>p. projr (spec_lower key (specs ! p))"
  let ?U = "\<lambda>p. projr (spec_upper key (specs ! p))"
  let ?cur = "srt ! q" and ?prev = "srt ! r"
  from valid have cols: "\<forall>j<partnatts key. cmp_total_preorder (partsupfunc key j)"
    by (simp add: valid_range_parts_def)
  then have pre: "cmp_total_preorder ?c"
    by (rule qsort_partition_rbound_cmp_total_preorder)
  have sorted: "sorted_wrt (\<lambda>a b. ?c a b \<le> 0) srt"
    unfolding srt by (rule sorted_qsort_arg [OF pre])
  have le: "?c ?prev ?cur \<le> 0"
    using sorted_wrt_nth_less [OF sorted, of r q] q Suc by simp
  have flags: "\<forall>s \<in> set specs. rb_lower (projr (spec_lower key s)) \<and>
             \<not> rb_lower (projr (spec_upper key s))"
    using valid_range_markers(3,4) [OF valid] by (metis in_set_conv_nth)
  have "distinct (range_markers_of key specs 0)"
    by (rule range_markers_of_distinct [OF flags])
  then have dist: "distinct srt"
    unfolding srt by (metis mset_qsort_arg mset_eq_imp_distinct_iff)
  have ne: "?prev \<noteq> ?cur"
    using dist q Suc by (simp add: nth_eq_iff_index_eq)
  have mem: "b \<in> set srt \<Longrightarrow> \<not> rb_lower b \<Longrightarrow>
      \<exists>p<length specs. b = (?U p)\<lparr>rb_index := int p\<rparr>" for b
  proof -
    assume b: "b \<in> set srt" "\<not> rb_lower b"
    then obtain p where p: "p < length specs"
      "b = (?L p)\<lparr>rb_index := int p\<rparr> \<or> b = (?U p)\<lparr>rb_index := int p\<rparr>"
      unfolding srt set_qsort_arg range_markers_of_mem by auto
    moreover have "rb_lower ((?L p)\<lparr>rb_index := int p\<rparr>)"
      using valid_range_markers(3) [OF valid p(1)] by simp
    ultimately show ?thesis using b(2) by auto
  qed
  show ?thesis
  proof (rule ccontr)
    assume "\<not> distinct_indexes_loop key srt None ! q"
    then have same: "\<forall>c<partnatts key.
        rb_content ?cur ! c = RANGE_DATUM_FINITE \<and> rb_content ?prev ! c = RANGE_DATUM_FINITE \<and>
        partsupfunc key c (rb_datums ?cur ! c) (rb_datums ?prev ! c) = 0"
      using q Suc by (simp add: distinct_indexes_loop_nth is_distinct_loop_iff)
    have "\<forall>c<partnatts key.
        rb_content ?prev ! c = RANGE_DATUM_FINITE \<and> rb_content ?cur ! c = RANGE_DATUM_FINITE \<and>
        partsupfunc key c (rb_datums ?prev ! c) (rb_datums ?cur ! c) = 0"
    proof (intro allI impI)
      fix c assume c: "c < partnatts key"
      with same have s: "rb_content ?cur ! c = RANGE_DATUM_FINITE"
        "rb_content ?prev ! c = RANGE_DATUM_FINITE"
        "partsupfunc key c (rb_datums ?cur ! c) (rb_datums ?prev ! c) = 0" by auto
      from cols c have "cmp_total_preorder (partsupfunc key c)" by simp
      from cmp_total_preorder_sym0 [OF this, of "rb_datums ?cur ! c" "rb_datums ?prev ! c"] s
      show "rb_content ?prev ! c = RANGE_DATUM_FINITE \<and> rb_content ?cur ! c = RANGE_DATUM_FINITE \<and>
        partsupfunc key c (rb_datums ?prev ! c) (rb_datums ?cur ! c) = 0" by simp
    qed
    from rbound_cmp_all_equal [OF this, of "rb_lower ?prev"]
    have val: "?c ?prev ?cur = (if rb_lower ?prev = rb_lower ?cur then 0
                                else if rb_lower ?prev then 1 else -1)"
      by (simp add: qsort_partition_rbound_cmp_def)
    with le up have pu: "\<not> rb_lower ?prev" and zero: "?c ?prev ?cur = 0"
      by (auto split: if_splits)
    from mem [of ?cur] q up obtain p where p: "p < length specs" "?cur = (?U p)\<lparr>rb_index := int p\<rparr>"
      by auto
    from mem [of ?prev] q Suc pu obtain k where k: "k < length specs"
      "?prev = (?U k)\<lparr>rb_index := int k\<rparr>"
      by auto
    from ne p k have "k \<noteq> p" by auto
    from valid_range_uppers_differ [OF valid k(1) p(1) this] zero p(2) k(2)
    show False by simp
  qed
qed

lemma range_build_loop_inv:
  assumes "mapping_inv n m nx"
    and "\<forall>b \<in> set rbs. \<not> rb_lower b \<longrightarrow> 0 \<le> rb_index b \<and> nat (rb_index b) < n"
    and "range_build_loop key rbs m nx ds cs ixs = (m', nx', ds', cs', ixs')"
  shows "mapping_inv n m' nx'
       \<and> mapped n m' = mapped n m \<union> (\<lambda>b. nat (rb_index b)) ` {b \<in> set rbs. \<not> rb_lower b}
       \<and> (\<forall>i<n. m ! i \<noteq> -1 \<longrightarrow> m' ! i = m ! i)"
  using assms
proof (induction rbs arbitrary: m nx ds cs ixs)
  case Nil
  then show ?case by simp
next
  case (Cons rb rbs)
  let ?d = "map (\<lambda>j. if rb_content rb ! j = RANGE_DATUM_FINITE then rb_datums rb ! j else 0)
                 [0..<partnatts key]"
  let ?c = "map (\<lambda>j. rb_content rb ! j) [0..<partnatts key]"
  show ?case
  proof (cases "rb_lower rb")
    case True
    then have rec: "range_build_loop key rbs m nx (ds @ [?d]) (cs @ [?c]) (ixs @ [-1])
        = (m', nx', ds', cs', ixs')"
      using Cons.prems(3) by (simp add: Let_def)
    have "{b \<in> set (rb # rbs). \<not> rb_lower b} = {b \<in> set rbs. \<not> rb_lower b}"
      using True by auto
    with Cons.IH [OF Cons.prems(1) _ rec] Cons.prems(2) show ?thesis by simp
  next
    case False
    let ?p = "nat (rb_index rb)"
    let ?m = "if m ! ?p = -1 then m[?p := nx] else m"
    let ?nx = "if m ! ?p = -1 then nx + 1 else nx"
    from Cons.prems(2) False have p: "?p < n" by simp
    note step = mapping_inv_step [OF Cons.prems(1) p]
    have rec: "range_build_loop key rbs ?m ?nx (ds @ [?d]) (cs @ [?c]) (ixs @ [?m ! ?p])
        = (m', nx', ds', cs', ixs')"
      using Cons.prems(3) False by (simp add: Let_def)
    have ih: "mapping_inv n m' nx'
       \<and> mapped n m' = mapped n ?m \<union> (\<lambda>b. nat (rb_index b)) ` {b \<in> set rbs. \<not> rb_lower b}
       \<and> (\<forall>i<n. ?m ! i \<noteq> -1 \<longrightarrow> m' ! i = ?m ! i)"
      using Cons.prems(2) by (intro Cons.IH [OF step(1) _ rec]) simp
    have keep: "\<forall>i<n. m ! i \<noteq> -1 \<longrightarrow> m' ! i = m ! i"
    proof (intro allI impI)
      fix i assume i: "i < n" "m ! i \<noteq> -1"
      with step(3) have "?m ! i = m ! i" by blast
      with i ih show "m' ! i = m ! i" by metis
    qed
    have "{b \<in> set (rb # rbs). \<not> rb_lower b} = insert rb {b \<in> set rbs. \<not> rb_lower b}"
      using False by auto
    with ih step(2) keep show ?thesis by auto
  qed
qed

lemma range_bounds_bijection:
  assumes valid: "valid_range_parts key specs" and n: "n = length specs"
  shows "\<exists>mapping bi. range_bounds key n specs = Inr (mapping, bi) \<and>
           length mapping = n \<and> distinct mapping \<and> set mapping = {0..<int n}"
proof -
  let ?U = "\<lambda>p. projr (spec_upper key (specs ! p))"
  define unsorted where "unsorted = range_markers_of key specs 0"
  define srt where "srt = qsort_arg (qsort_partition_rbound_cmp key) unsorted"
  define rbounds where "rbounds = distinct_rbounds key srt"
  have ok: "\<forall>s \<in> set specs. spec_strategy s = PARTITION_STRATEGY_RANGE \<and>
             (\<exists>l u. spec_lower key s = Inr l \<and> spec_upper key s = Inr u)"
    using valid unfolding valid_range_parts_def by blast
  have coll: "range_specs_loop key specs 0 [] = Inr unsorted"
    using range_specs_loop_ok [OF ok, of 0 "[]"] by (simp add: unsorted_def)
  obtain m nx ds cs ixs where build:
    "range_build_loop key rbounds (replicate n (-1)) 0 [] [] [] = (m, nx, ds, cs, ixs)"
    by (metis prod_cases5)
  have res: "range_bounds key n specs =
      Inr (m, \<lparr>bi_strategy = strategy key, ndatums = int (length rbounds), bi_datums = ds,
               bi_content = Some cs, bi_indexes = ixs @ [-1], null_index = -1\<rparr>)"
    using coll build
    by (simp add: range_bounds_def srt_def [symmetric] rbounds_def [symmetric] Let_def)
  have owners: "\<forall>b \<in> set rbounds. \<not> rb_lower b \<longrightarrow> 0 \<le> rb_index b \<and> nat (rb_index b) < n"
  proof (intro ballI impI)
    fix b assume "b \<in> set rbounds" "\<not> rb_lower b"
    then have "b \<in> set unsorted"
      using distinct_rbounds_subset [of key srt] by (auto simp: rbounds_def srt_def)
    then obtain p where "p < length specs" "rb_index b = int p"
      unfolding unsorted_def range_markers_of_mem by auto
    then show "0 \<le> rb_index b \<and> nat (rb_index b) < n" using n by simp
  qed
  from range_build_loop_inv [OF mapping_inv_init owners build]
  have inv: "mapping_inv n m nx"
    and dom: "mapped n m = mapped n (replicate n (-1))
                \<union> (\<lambda>b. nat (rb_index b)) ` {b \<in> set rbounds. \<not> rb_lower b}"
    by auto
  have full: "mapped n m = {..<n}"
  proof
    show "mapped n m \<subseteq> {..<n}" by (auto simp: mapped_def)
    show "{..<n} \<subseteq> mapped n m"
    proof
      fix p assume "p \<in> {..<n}"
      then have p: "p < length specs" using n by simp
      let ?u = "(?U p)\<lparr>rb_index := int p\<rparr>"
      have "?u \<in> set unsorted"
        unfolding unsorted_def range_markers_of_mem using p by auto
      then have "?u \<in> set srt" by (simp add: srt_def)
      then obtain q where q: "q < length srt" "srt ! q = ?u"
        by (auto simp: in_set_conv_nth)
      have up: "\<not> rb_lower (srt ! q)"
        using valid_range_markers(4) [OF valid p] q(2) by simp
      have "distinct_indexes_loop key srt None ! q"
        using valid_range_upper_is_distinct [OF valid _ q(1) up]
        by (simp add: srt_def unsorted_def)
      from distinct_rbounds_mem [OF q(1) this] have "?u \<in> set rbounds"
        by (simp add: rbounds_def q(2))
      moreover have "\<not> rb_lower ?u" using up q(2) by simp
      ultimately have "nat (rb_index ?u) \<in> (\<lambda>b. nat (rb_index b)) ` {b \<in> set rbounds. \<not> rb_lower b}"
        by blast
      then show "p \<in> mapped n m" using dom by simp
    qed
  qed
  from mapping_inv_full [OF inv full] have "distinct m" "set m = {0..<int n}" by auto
  moreover have "length m = n" using inv by (simp add: mapping_inv_def)
  ultimately show ?thesis using res by blast
qed

subsection \<open>The mapping is a bijection\<close>

lemma canonical_bounds_bijection:
  assumes "valid_parts key specs" "n = length specs"
  shows "\<exists>mapping bi. canonical_bounds key n specs = Inr (mapping, bi) \<and>
           length mapping = n \<and> distinct mapping \<and> set mapping = {0..<int n}"
  using assms list_bounds_bijection [of specs n key] range_bounds_bijection [of key specs n]
  unfolding valid_parts_def canonical_bounds_def
  by (auto simp: PARTITION_STRATEGY_RANGE_def PARTITION_STRATEGY_LIST_def)

text \<open>
  Claim C9. For a valid set of \<open>nparts > 0\<close> partitions (list: at most one null value overall;
  range: each lower edge strictly below its upper edge and the ranges pairwise disjoint)
  the canonicalizer raises no error, the mapping from input position to canonical ordinal
  has one entry per input partition, its entries are pairwise different and are exactly
  the ordinals \<open>0 .. nparts - 1\<close>, and the OID of every input partition is stored in the
  slot of \<open>oids\<close> given by its ordinal.
\<close>

theorem canonical_mapping_bijection:
  assumes valid: "valid_parts key (map snd parts)" and ne: "parts \<noteq> []"
  shows "\<exists>mapping bi result_oids.
           canonical_bounds key (length parts) (map snd parts) = Inr (mapping, bi)
         \<and> length mapping = length parts \<and> distinct mapping
         \<and> set mapping = {0..<int (length parts)}
         \<and> RelationBuildPartitionDesc (Some key) parts
             = Inr (Some \<lparr>nparts = int (length parts), oids = result_oids, boundinfo = Some bi\<rparr>)
         \<and> length result_oids = length parts
         \<and> (\<forall>i<length parts. result_oids ! nat (mapping ! i) = fst (parts ! i))"
proof -
  let ?n = "length parts"
  from canonical_bounds_bijection [OF valid, of ?n] obtain mapping bi where
    cb: "canonical_bounds key ?n (map snd parts) = Inr (mapping, bi)"
    and len: "length mapping = ?n" and dist: "distinct mapping"
    and set: "set mapping = {0..<int ?n}"
    by auto
  have rng: "\<forall>j<?n. 0 \<le> mapping ! j \<and> mapping ! j < int ?n"
    using set len by (metis atLeastLessThan_iff nth_mem)
  from assign_oids_loop_ok [OF len rng dist, of "replicate ?n 0" 0 "map fst parts"]
  obtain r where r: "assign_oids_loop mapping (map fst parts) 0 (replicate ?n 0) = Inr r"
    "length r = ?n" "\<forall>j. 0 \<le> j \<and> j < ?n \<longrightarrow> r ! nat (mapping ! j) = map fst parts ! (j - 0)"
    by auto
  have "RelationBuildPartitionDesc (Some key) parts
      = Inr (Some \<lparr>nparts = int ?n, oids = r, boundinfo = Some bi\<rparr>)"
    using cb r(1) ne by (simp add: RelationBuildPartitionDesc_def build_partition_desc_def Let_def)
  moreover have "\<forall>i<?n. r ! nat (mapping ! i) = fst (parts ! i)"
    using r(3) by simp
  ultimately show ?thesis using cb len dist set r(2) by blast
qed

text \<open>
  Two valid sets: the ranges \<open>[20, 30)\<close> and \<open>[10, 20)\<close> declared in this order, and three
  list partitions of which the second holds only the null value.
\<close>

lemma int4_cmp_total_preorder: "cmp_total_preorder int4_cmp"
  by (auto simp: cmp_total_preorder_def int4_cmp_def split: if_splits)

lemma valid_two_ranges:
  "valid_parts (range_key 1) [range_spec 20 30, range_spec 10 20]"
proof -
  let ?k = "range_key 1"
  have k: "strategy ?k = PARTITION_STRATEGY_RANGE" "partnatts ?k = 1"
    "partsupfunc ?k 0 = int4_cmp"
    by (simp_all add: range_key_def)
  have l1: "spec_lower ?k (range_spec 10 20) = Inr (range_marker (-1) 10 True)"
    and u1: "spec_upper ?k (range_spec 10 20) = Inr (range_marker (-1) 20 False)"
    and l2: "spec_lower ?k (range_spec 20 30) = Inr (range_marker (-1) 20 True)"
    and u2: "spec_upper ?k (range_spec 20 30) = Inr (range_marker (-1) 30 False)"
    by code_simp+
  have c1: "qsort_partition_rbound_cmp ?k (range_marker (-1) 10 True) (range_marker (-1) 20 False) < 0"
    and c2: "qsort_partition_rbound_cmp ?k (range_marker (-1) 20 True) (range_marker (-1) 30 False) < 0"
    and c3: "qsort_partition_rbound_cmp ?k (range_marker (-1) 20 False) (range_marker (-1) 20 True) \<le> 0"
    by code_simp+
  have s: "spec_strategy (range_spec a b) = PARTITION_STRATEGY_RANGE" for a b
    by (simp add: range_spec_def)
  have d: "ranges_disjoint ?k (range_spec 20 30) (range_spec 10 20)"
    "ranges_disjoint ?k (range_spec 10 20) (range_spec 20 30)"
    using c3 l1 u1 l2 u2 by (simp_all add: ranges_disjoint_def)
  have pq: "ranges_disjoint ?k ([range_spec 20 30, range_spec 10 20] ! p)
              ([range_spec 20 30, range_spec 10 20] ! q)"
    if "p < 2" "q < 2" "p \<noteq> q" for p q
    using that d by (auto simp: less_2_cases_iff)
  show ?thesis
    unfolding valid_parts_def valid_range_parts_def
    using k int4_cmp_total_preorder s l1 u1 l2 u2 c1 c2 pq
    by auto
qed

lemma valid_three_lists:
  "valid_parts list_key [list_spec [3, 4], null_spec, list_spec [1, 2]]"
  by (simp add: valid_parts_def valid_list_parts_def list_key_def list_spec_def null_spec_def)

text \<open>
  On these two sets the mapping is \<open>[1, 0]\<close> and \<open>[1, 2, 0]\<close>, and the OIDs are stored in
  canonical order.
\<close>

theorem canonical_mapping_bijection_witness:
  "(\<exists>mapping bi result_oids.
      canonical_bounds (range_key 1) (length [(102 :: Oid, range_spec 20 30), (101, range_spec 10 20)])
          (map snd [(102 :: Oid, range_spec 20 30), (101, range_spec 10 20)]) = Inr (mapping, bi)
      \<and> mapping = [1, 0]
      \<and> RelationBuildPartitionDesc (Some (range_key 1))
            [(102, range_spec 20 30), (101, range_spec 10 20)]
          = Inr (Some \<lparr>nparts = 2, oids = result_oids, boundinfo = Some bi\<rparr>)
      \<and> result_oids = [101, 102])
   \<and> (\<exists>mapping bi result_oids.
      canonical_bounds list_key (length [(201 :: Oid, list_spec [3, 4]), (202, null_spec), (203, list_spec [1, 2])])
          (map snd [(201 :: Oid, list_spec [3, 4]), (202, null_spec), (203, list_spec [1, 2])])
          = Inr (mapping, bi)
      \<and> mapping = [1, 2, 0]
      \<and> RelationBuildPartitionDesc (Some list_key)
            [(201, list_spec [3, 4]), (202, null_spec), (203, list_spec [1, 2])]
          = Inr (Some \<lparr>nparts = 3, oids = result_oids, boundinfo = Some bi\<rparr>)
      \<and> result_oids = [203, 201, 202])"
proof -
  let ?P = "[(102 :: Oid, range_spec 20 30), (101, range_spec 10 20)]"
  let ?Q = "[(201 :: Oid, list_spec [3, 4]), (202, null_spec), (203, list_spec [1, 2])]"
  have v1: "valid_parts (range_key 1) (map snd ?P)"
    using valid_two_ranges by simp
  have v2: "valid_parts list_key (map snd ?Q)"
    using valid_three_lists by simp
  have n1: "?P \<noteq> []" and n2: "?Q \<noteq> []"
    by simp_all
  have e1: "canonical_bounds (range_key 1) (length ?P) (map snd ?P) = Inr ([1, 0], two_range_bounds)"
    by code_simp
  have e2: "canonical_bounds list_key (length ?Q) (map snd ?Q)
      = Inr ([1, 2, 0], \<lparr>bi_strategy = PARTITION_STRATEGY_LIST, ndatums = 4,
               bi_datums = [[1], [2], [3], [4]], bi_content = None,
               bi_indexes = [0, 0, 1, 1], null_index = 2\<rparr>)"
    by code_simp
  have two: "xs = [a, b]" if "length xs = 2" "xs ! 0 = a" "xs ! 1 = b" for xs :: "Oid list" and a b
    using that by (cases xs; cases "tl xs") auto
  have three: "xs = [a, b, c]" if "length xs = 3" "xs ! 0 = a" "xs ! 1 = b" "xs ! 2 = c"
    for xs :: "Oid list" and a b c
  proof -
    from that(1) obtain x y z where "xs = [x, y, z]"
      by (auto simp: numeral_3_eq_3 length_Suc_conv)
    with that show ?thesis by simp
  qed
  from canonical_mapping_bijection [OF v1 n1] obtain m1 b1 r1 where h1:
    "canonical_bounds (range_key 1) (length ?P) (map snd ?P) = Inr (m1, b1)"
    "RelationBuildPartitionDesc (Some (range_key 1)) ?P
       = Inr (Some \<lparr>nparts = int (length ?P), oids = r1, boundinfo = Some b1\<rparr>)"
    "length r1 = length ?P"
    "\<forall>i<length ?P. r1 ! nat (m1 ! i) = fst (?P ! i)"
    by (elim exE conjE) (rule that, assumption+)
  from h1(1) have m1: "m1 = [1, 0]" unfolding e1 by simp
  have "r1 ! 1 = 102" using h1(4) [rule_format, of 0] m1 by simp
  moreover have "r1 ! 0 = 101" using h1(4) [rule_format, of 1] m1 by simp
  ultimately have r1: "r1 = [101, 102]" using h1(3) by (intro two) simp_all
  from canonical_mapping_bijection [OF v2 n2] obtain m2 b2 r2 where h2:
    "canonical_bounds list_key (length ?Q) (map snd ?Q) = Inr (m2, b2)"
    "RelationBuildPartitionDesc (Some list_key) ?Q
       = Inr (Some \<lparr>nparts = int (length ?Q), oids = r2, boundinfo = Some b2\<rparr>)"
    "length r2 = length ?Q"
    "\<forall>i<length ?Q. r2 ! nat (m2 ! i) = fst (?Q ! i)"
    by (elim exE conjE) (rule that, assumption+)
  from h2(1) have m2: "m2 = [1, 2, 0]" unfolding e2 by simp
  have "r2 ! 1 = 201" using h2(4) [rule_format, of 0] m2 by simp
  moreover have "r2 ! 2 = 202" using h2(4) [rule_format, of 1] m2 by simp
  moreover have "r2 ! 0 = 203" using h2(4) [rule_format, of 2] m2 by simp
  ultimately have r2: "r2 = [203, 201, 202]" using h2(3) by (intro three) simp_all
  show ?thesis
  proof (intro conjI)
    show "\<exists>mapping bi result_oids.
      canonical_bounds (range_key 1) (length ?P) (map snd ?P) = Inr (mapping, bi)
      \<and> mapping = [1, 0]
      \<and> RelationBuildPartitionDesc (Some (range_key 1)) ?P
          = Inr (Some \<lparr>nparts = 2, oids = result_oids, boundinfo = Some bi\<rparr>)
      \<and> result_oids = [101, 102]"
      using h1(1,2) m1 r1 by (intro exI [of _ m1] exI [of _ b1] exI [of _ r1]) simp
    show "\<exists>mapping bi result_oids.
      canonical_bounds list_key (length ?Q) (map snd ?Q) = Inr (mapping, bi)
      \<and> mapping = [1, 2, 0]
      \<and> RelationBuildPartitionDesc (Some list_key) ?Q
          = Inr (Some \<lparr>nparts = 3, oids = result_oids, boundinfo = Some bi\<rparr>)
      \<and> result_oids = [203, 201, 202]"
      using h2(1,2) m2 r2 by (intro exI [of _ m2] exI [of _ b2] exI [of _ r2]) simp
  qed
qed

section \<open>Properties of the canonicalizer: independence of the declaration order\<close>

subsection \<open>Tagging values by their declaration\<close>







subsection \<open>Range markers of a valid set\<close>












subsection \<open>The range loop\<close>














section \<open>Properties of the canonicalizer: the merged boundary sequence\<close>

text \<open>
  The flag array \<open>distinct_indexes\<close> in closed form, the array \<open>rbounds\<close> as the markers at the
  flagged positions, and the arrays the range loop fills.
\<close>

lemma distinct_indexes_loop_kept:
  assumes "i < length xs"
  shows "distinct_indexes_loop key xs None ! i \<longleftrightarrow> marker_kept key xs i"
proof (cases i)
  case 0
  with assms show ?thesis
    by (auto simp: distinct_indexes_loop_nth is_distinct_loop_first marker_kept_def)
next
  case (Suc k)
  with assms show ?thesis
    by (simp add: distinct_indexes_loop_nth is_distinct_loop_iff marker_kept_def)
qed

lemma filter_zip_flags:
  assumes "length fl = length xs"
  shows "map fst (filter snd (zip xs fl)) = map ((!) xs) (filter ((!) fl) [0..<length xs])"
  using assms
proof (induction xs arbitrary: fl rule: rev_induct)
  case Nil
  then show ?case by simp
next
  case (snoc x xs)
  from snoc.prems obtain fl' f where fl: "fl = fl' @ [f]" and len: "length fl' = length xs"
    by (cases fl rule: rev_cases) simp_all
  have ih: "map fst (filter snd (zip xs fl')) = map ((!) xs) (filter ((!) fl') [0..<length xs])"
    by (rule snoc.IH [OF len])
  have f1: "filter ((!) (fl' @ [f])) [0..<length xs] = filter ((!) fl') [0..<length xs]"
    using len by (intro filter_cong) (simp_all add: nth_append)
  have m1: "map ((!) (xs @ [x])) (filter ((!) fl') [0..<length xs])
      = map ((!) xs) (filter ((!) fl') [0..<length xs])"
    by (intro map_cong) (simp_all add: nth_append)
  have last: "(fl' @ [f]) ! length xs = f" "(xs @ [x]) ! length xs = x"
    using len by (simp_all add: nth_append)
  show ?case
    unfolding fl using len by (simp add: ih f1 m1 last)
qed

lemma distinct_rbounds_kept:
  "distinct_rbounds key xs = map ((!) xs) (filter (marker_kept key xs) [0..<length xs])"
proof -
  have "filter ((!) (distinct_indexes_loop key xs None)) [0..<length xs]
      = filter (marker_kept key xs) [0..<length xs]"
    by (intro filter_cong) (simp_all add: distinct_indexes_loop_kept)
  then show ?thesis
    unfolding distinct_rbounds_def by (simp add: filter_zip_flags)
qed

lemma range_build_loop_arrays:
  assumes "range_build_loop key rbs m nx ds cs ixs = (m', nx', ds', cs', ixs')"
  shows "ds' = ds @ map (marker_datums key) rbs \<and> cs' = cs @ map (marker_content key) rbs
       \<and> length ixs' = length ixs + length rbs
       \<and> (\<forall>k<length rbs. rb_lower (rbs ! k) \<longrightarrow> ixs' ! (length ixs + k) = -1)
       \<and> (\<forall>k<length ixs. ixs' ! k = ixs ! k)"
  using assms
proof (induction rbs arbitrary: m nx ds cs ixs)
  case Nil
  then show ?case by simp
next
  case (Cons rb rest)
  from Cons.prems obtain m0 nx0 x where
    run: "range_build_loop key rest m0 nx0 (ds @ [marker_datums key rb])
            (cs @ [marker_content key rb]) (ixs @ [x]) = (m', nx', ds', cs', ixs')"
    and x: "rb_lower rb \<longrightarrow> x = -1"
    by (simp add: Let_def marker_datums_def marker_content_def split: if_splits)
  from Cons.IH [OF run] have ih:
    "ds' = (ds @ [marker_datums key rb]) @ map (marker_datums key) rest"
    "cs' = (cs @ [marker_content key rb]) @ map (marker_content key) rest"
    "length ixs' = length (ixs @ [x]) + length rest"
    "\<forall>k<length rest. rb_lower (rest ! k) \<longrightarrow> ixs' ! (length (ixs @ [x]) + k) = -1"
    "\<forall>k<length (ixs @ [x]). ixs' ! k = (ixs @ [x]) ! k"
    by simp_all
  have low: "\<forall>k<length (rb # rest). rb_lower ((rb # rest) ! k) \<longrightarrow> ixs' ! (length ixs + k) = -1"
  proof (intro allI impI)
    fix k assume k: "k < length (rb # rest)" and l: "rb_lower ((rb # rest) ! k)"
    show "ixs' ! (length ixs + k) = -1"
    proof (cases k)
      case 0
      with l x ih(5) show ?thesis by (simp add: nth_append)
    next
      case (Suc k')
      with k l ih(4) show ?thesis by simp
    qed
  qed
  have old: "\<forall>k<length ixs. ixs' ! k = ixs ! k"
    using ih(5) by (simp add: nth_append)
  show ?case
    using ih(1,2,3) low old by simp
qed

text \<open>
  Claim C2, amended. The boundary sequence of the bound collection built for a range key
  consists of exactly the kept markers of the sorted sequence, in sorted order: \<open>ndatums\<close> is
  their number, \<open>datums\<close> and \<open>content\<close> hold their rows, and a kept lower edge has index -1.
  The marker at position 0 is kept; the marker at position \<open>i + 1\<close> is kept exactly when in
  some key column it or the marker before it is infinite, or the two column values compare
  unequal. The edge kinds are not compared: a marker that follows one with the same finite
  values in every column is merged away, also when it is a lower edge following an upper
  edge (only the upper edge is stored), and a marker with an infinite column is never
  merged.
\<close>

theorem range_bounds_merge_rule:
  assumes strat: "strategy key = PARTITION_STRATEGY_RANGE"
    and res: "canonical_bounds key np specs = Inr (mapping, bi)"
  shows "\<exists>unsorted all_bounds kept.
           range_specs_loop key specs 0 [] = Inr unsorted
         \<and> all_bounds = qsort_arg (qsort_partition_rbound_cmp key) unsorted
         \<and> kept = filter (marker_kept key all_bounds) [0..<length all_bounds]
         \<and> distinct_rbounds key all_bounds = map ((!) all_bounds) kept
         \<and> ndatums bi = int (length kept)
         \<and> bi_datums bi = map (\<lambda>i. marker_datums key (all_bounds ! i)) kept
         \<and> bi_content bi = Some (map (\<lambda>i. marker_content key (all_bounds ! i)) kept)
         \<and> length (bi_indexes bi) = length kept + 1
         \<and> (\<forall>k<length kept. rb_lower (all_bounds ! (kept ! k)) \<longrightarrow> bi_indexes bi ! k = -1)
         \<and> (\<forall>i. Suc i < length all_bounds \<and>
                (\<forall>j<partnatts key.
                   rb_content (all_bounds ! Suc i) ! j = RANGE_DATUM_FINITE \<and>
                   rb_content (all_bounds ! i) ! j = RANGE_DATUM_FINITE \<and>
                   partsupfunc key j (rb_datums (all_bounds ! Suc i) ! j)
                     (rb_datums (all_bounds ! i) ! j) = 0)
                \<longrightarrow> Suc i \<notin> set kept)
         \<and> (\<forall>i<length all_bounds.
                (\<exists>j<partnatts key. rb_content (all_bounds ! i) ! j \<noteq> RANGE_DATUM_FINITE)
                \<longrightarrow> i \<in> set kept)"
proof -
  from strat res have rb: "range_bounds key np specs = Inr (mapping, bi)"
    by (simp add: canonical_bounds_def)
  then obtain unsorted where coll: "range_specs_loop key specs 0 [] = Inr unsorted"
    by (auto simp: range_bounds_def split: sum.splits)
  define all_bounds where "all_bounds = qsort_arg (qsort_partition_rbound_cmp key) unsorted"
  define kept where "kept = filter (marker_kept key all_bounds) [0..<length all_bounds]"
  define rbounds where "rbounds = distinct_rbounds key all_bounds"
  have rk: "rbounds = map ((!) all_bounds) kept"
    unfolding rbounds_def kept_def by (rule distinct_rbounds_kept)
  obtain m nx ds cs ixs where run:
    "range_build_loop key rbounds (replicate np (-1)) 0 [] [] [] = (m, nx, ds, cs, ixs)"
    by (metis prod_cases5)
  from rb coll run have bi: "bi = \<lparr>bi_strategy = strategy key, ndatums = int (length rbounds),
      bi_datums = ds, bi_content = Some cs, bi_indexes = ixs @ [-1], null_index = -1\<rparr>"
    by (simp add: range_bounds_def all_bounds_def [symmetric] rbounds_def [symmetric] Let_def)
  from range_build_loop_arrays [OF run] have arr:
    "ds = map (marker_datums key) rbounds" "cs = map (marker_content key) rbounds"
    "length ixs = length rbounds"
    "\<forall>k<length rbounds. rb_lower (rbounds ! k) \<longrightarrow> ixs ! k = -1"
    by simp_all
  have len: "length rbounds = length kept" by (simp add: rk)
  have c5: "ndatums bi = int (length kept)" by (simp add: bi len)
  have c6: "bi_datums bi = map (\<lambda>i. marker_datums key (all_bounds ! i)) kept"
    by (simp add: bi arr(1) rk)
  have c7: "bi_content bi = Some (map (\<lambda>i. marker_content key (all_bounds ! i)) kept)"
    by (simp add: bi arr(2) rk)
  have c8: "length (bi_indexes bi) = length kept + 1" by (simp add: bi arr(3) len)
  have c9: "\<forall>k<length kept. rb_lower (all_bounds ! (kept ! k)) \<longrightarrow> bi_indexes bi ! k = -1"
  proof (intro allI impI)
    fix k assume k: "k < length kept" and l: "rb_lower (all_bounds ! (kept ! k))"
    from k have "rbounds ! k = all_bounds ! (kept ! k)" by (simp add: rk)
    with arr(4) k l len have "ixs ! k = -1" by simp
    with k arr(3) len show "bi_indexes bi ! k = -1" by (simp add: bi nth_append)
  qed
  have c10: "\<forall>i. Suc i < length all_bounds \<and>
                (\<forall>j<partnatts key.
                   rb_content (all_bounds ! Suc i) ! j = RANGE_DATUM_FINITE \<and>
                   rb_content (all_bounds ! i) ! j = RANGE_DATUM_FINITE \<and>
                   partsupfunc key j (rb_datums (all_bounds ! Suc i) ! j)
                     (rb_datums (all_bounds ! i) ! j) = 0)
                \<longrightarrow> Suc i \<notin> set kept"
    by (auto simp: kept_def marker_kept_def)
  have c11: "\<forall>i<length all_bounds.
                (\<exists>j<partnatts key. rb_content (all_bounds ! i) ! j \<noteq> RANGE_DATUM_FINITE)
                \<longrightarrow> i \<in> set kept"
    by (auto simp: kept_def marker_kept_def)
  show ?thesis
    using coll all_bounds_def kept_def rk [unfolded rbounds_def] c5 c6 c7 c8 c9 c10 c11
    by (intro exI [of _ unsorted] exI [of _ all_bounds] exI [of _ kept] conjI)
qed

text \<open>
  For the partitions [10, 20) and [20, 30) the kept positions are 0, 1 and 3: the lower
  edge 20 at position 2 is merged into the upper edge 20 before it.
\<close>

theorem range_bounds_merge_rule_witness:
  "canonical_bounds (range_key 1) 2 [range_spec 10 20, range_spec 20 30]
     = Inr ([0, 1], two_range_bounds)
   \<and> (\<exists>all_bounds kept.
         all_bounds = [range_marker 0 10 True, range_marker 0 20 False,
                       range_marker 1 20 True, range_marker 1 30 False]
       \<and> kept = [0, 1, 3]
       \<and> distinct_rbounds (range_key 1) all_bounds = map ((!) all_bounds) kept
       \<and> ndatums two_range_bounds = int (length kept)
       \<and> bi_datums two_range_bounds = map (\<lambda>i. marker_datums (range_key 1) (all_bounds ! i)) kept
       \<and> Suc 1 \<notin> set kept)"
proof -
  let ?k = "range_key 1"
  let ?specs = "[range_spec 10 20, range_spec 20 30]"
  let ?ab = "[range_marker 0 10 True, range_marker 0 20 False,
              range_marker 1 20 True, range_marker 1 30 False]"
  have strat: "strategy ?k = PARTITION_STRATEGY_RANGE"
    by (simp add: range_key_def)
  have res: "canonical_bounds ?k 2 ?specs = Inr ([0, 1], two_range_bounds)"
    by code_simp
  have coll: "range_specs_loop ?k ?specs 0 [] = Inr ?ab"
    by code_simp
  have srt: "qsort_arg (qsort_partition_rbound_cmp ?k) ?ab = ?ab"
    by code_simp
  have kp: "filter (marker_kept ?k ?ab) [0..<length ?ab] = [0, 1, 3]"
    by (simp add: marker_kept_def range_key_def range_marker_def int4_cmp_def upt_rec)
  from range_bounds_merge_rule [OF strat res] obtain unsorted all_bounds kept where h:
    "range_specs_loop ?k ?specs 0 [] = Inr unsorted"
    "all_bounds = qsort_arg (qsort_partition_rbound_cmp ?k) unsorted"
    "kept = filter (marker_kept ?k all_bounds) [0..<length all_bounds]"
    "distinct_rbounds ?k all_bounds = map ((!) all_bounds) kept"
    "ndatums two_range_bounds = int (length kept)"
    "bi_datums two_range_bounds = map (\<lambda>i. marker_datums ?k (all_bounds ! i)) kept"
    by (elim exE conjE) (rule that, assumption+)
  from h(1) coll have u: "unsorted = ?ab" by simp
  from h(2) have ab: "all_bounds = ?ab" unfolding u srt .
  from h(3) have k: "kept = [0, 1, 3]" unfolding ab kp .
  have "Suc 1 \<notin> set kept" by (simp add: k)
  with h(4,5,6) ab k res show ?thesis
    by (intro conjI exI [of _ all_bounds] exI [of _ kept]) simp_all
qed

end
